theory Spec2Isabelle
  imports Main "HOL-Library.Word" "HOL-Library.Sublist" "HOL-Library.Code_Target_Numeral"
begin

unbundle bit_operations_syntax

section \<open>Data model\<close>

text \<open>
  The read matching engine of \<^verbatim>\<open>ReadQueue.h\<close> and the index it reads
  (\<^verbatim>\<open>RefGenome.h\<close>).  An access outside a \<^verbatim>\<open>std::vector\<close> or
  \<^verbatim>\<open>std::string\<close> is undefined behaviour in the source; the model makes it the
  error value \<open>OutOfBounds\<close>.  Container sizes are natural numbers and are taken to be
  below \<open>2 ^ 32\<close>, so that the \<^verbatim>\<open>unsigned int\<close> loop indices of the source
  do not wrap; every other \<^verbatim>\<open>unsigned int\<close> and \<^verbatim>\<open>uint64_t\<close>
  computation is modelled with its wrap-around.
\<close>

datatype error = OutOfBounds

text \<open>
  Modelled from the spec: \<^verbatim>\<open>struct CpG\<close> and \<^verbatim>\<open>struct metaCpG\<close>
  (declared in \<^verbatim>\<open>structs.h\<close>, which is missing).  The spec: a CpG is a chromosome
  id and a position in that chromosome, a meta-CpG stores the index of its first CpG.
  These are the fields the matching code reads (\<^verbatim>\<open>.chrom\<close>, \<^verbatim>\<open>.pos\<close>,
  \<^verbatim>\<open>.start\<close>).
\<close>

record CpG =
  chrom :: "8 word"
  pos :: "32 word"

record metaCpG =
  start :: "32 word"

text \<open>
  Modelled from the spec: \<^verbatim>\<open>KMER::kmer\<close> with its decoders
  \<^verbatim>\<open>KMER::getMetaCpG\<close>, \<^verbatim>\<open>KMER::getOffset\<close> and
  \<^verbatim>\<open>KMER::isStartCpG\<close> (declared in \<^verbatim>\<open>structs.h\<close>, which is missing).
  The spec describes a packed value carrying a meta-CpG index, an offset within the
  meta-CpG's window and a start flag; the strand flag travels in the parallel
  \<^verbatim>\<open>seedsS\<close> list.  The record keeps the three decoded components and leaves
  the bit layout open.
\<close>

record kmer =
  getMetaCpG :: "64 word"
  getOffset :: "64 word"
  isStartCpG :: bool

text \<open>
  Modelled from the spec: \<^verbatim>\<open>DnaBitStr\<close> (\<^verbatim>\<open>DnaBitStr.h\<close> is missing), the
  packed genome of one chromosome, which hands out the 2-bit encoding of the k-mer
  starting at a given offset, on the forward or on the reverse-complement strand.
\<close>

record DnaBitStr =
  getSeqKmer :: "64 word \<Rightarrow> 64 word"
  getSeqKmerRev :: "64 word \<Rightarrow> 64 word"

text \<open>The constants \<^verbatim>\<open>MyConst::KMERLEN\<close> and \<^verbatim>\<open>MyConst::MISCOUNT\<close> of
  \<^verbatim>\<open>CONST.h\<close>, which is missing, are parameters of the model, both
  \<^verbatim>\<open>unsigned int\<close> values.\<close>

record MyConst =
  KMERLEN :: nat
  MISCOUNT :: nat

text \<open>The nucleotide codec \<^verbatim>\<open>BitFun\<close>, whose header is missing, is a parameter of
  the model: the 2-bit code of a letter, the code of its complement, and the comparison
  mask that belongs to a reference k-mer.\<close>

record BitFun =
  getBitRepr :: "char \<Rightarrow> 64 word"
  getBitReprRev :: "char \<Rightarrow> 64 word"
  getMask :: "64 word \<Rightarrow> 64 word"

text \<open>The tables of \<^verbatim>\<open>class RefGenome\<close> (lines 148--189).\<close>

record RefGenome =
  cpgTable :: "CpG list"
  cpgStartTable :: "CpG list"
  genomeBit :: "DnaBitStr list"
  tabIndex :: "64 word list"
  kmerTable :: "kmer list"
  strandTable :: "bool list"
  metaCpGs :: "metaCpG list"
  metaStartCpGs :: "metaCpG list"
  filteredKmers :: "64 word set"

text \<open>
  Modelled from the spec: \<^verbatim>\<open>Read\<close> (\<^verbatim>\<open>Read.h\<close> is missing), a sequence of
  bases plus metadata; the matching code reads \<^verbatim>\<open>r.seq\<close> only.
\<close>

record Read =
  seq :: string

text \<open>The members of \<^verbatim>\<open>class ReadQueue\<close> that the matching code touches.
  \<open>counts\<close> holds one counter array per worker thread.\<close>

record ReadQueue =
  ref :: RefGenome
  readBuffer :: "Read list"
  counts :: "32 word list list"

type_synonym seedsK = "kmer list list"
type_synonym seedsS = "bool list list"

section \<open>filterHeuSeeds\<close>

text \<open>The inner counting loop over one offset's seed list (lines 59--72):
  \<open>lastId\<close> is the meta-CpG index visited last, a seed with the same index as its
  predecessor is skipped, every other seed increments its counter.\<close>

fun countRow :: "kmer list \<Rightarrow> 64 word \<Rightarrow> 32 word list \<Rightarrow> error + 32 word list" where
  "countRow [] lastId threadCount = Inr threadCount"
| "countRow (k # ks) lastId threadCount =
     (let metaId = getMetaCpG k in
      if metaId = lastId then countRow ks lastId threadCount
      else if unat metaId < length threadCount
        then countRow ks metaId (threadCount[unat metaId := threadCount ! unat metaId + 1])
        else Inl OutOfBounds)"

text \<open>The outer counting loop (lines 53--73); \<open>lastId\<close> restarts at
  \<^verbatim>\<open>0xffffffffffffffff\<close> for every offset.\<close>

fun countAll :: "seedsK \<Rightarrow> 32 word list \<Rightarrow> error + 32 word list" where
  "countAll [] threadCount = Inr threadCount"
| "countAll (row # rows) threadCount =
     (case countRow row (- 1) threadCount of
        Inl e \<Rightarrow> Inl e
      | Inr threadCount' \<Rightarrow> countAll rows threadCount')"

text \<open>\<^verbatim>\<open>countCut\<close> (line 76), computed in \<^verbatim>\<open>unsigned int\<close>.\<close>

definition countCut :: "MyConst \<Rightarrow> 32 word \<Rightarrow> 32 word" where
  "countCut c readSize =
     readSize - of_nat (KMERLEN c) + 1 - of_nat (KMERLEN c) * of_nat (MISCOUNT c)"

text \<open>The inner filter loop (lines 88--99) over \<^verbatim>\<open>seedsK[i]\<close> and
  \<^verbatim>\<open>seedsS[i]\<close>; the strand flag is read only for a seed that is kept.\<close>

fun filterRow :: "32 word list \<Rightarrow> 32 word \<Rightarrow> kmer list \<Rightarrow> bool list
    \<Rightarrow> error + (kmer list \<times> bool list)" where
  "filterRow threadCount cutoff [] ss = Inr ([], [])"
| "filterRow threadCount cutoff (k # ks) ss =
     (if unat (getMetaCpG k) < length threadCount then
        if threadCount ! unat (getMetaCpG k) \<ge> cutoff then
          (case ss of
             [] \<Rightarrow> Inl OutOfBounds
           | s # ss' \<Rightarrow>
               (case filterRow threadCount cutoff ks ss' of
                  Inl e \<Rightarrow> Inl e
                | Inr (fk, fs) \<Rightarrow> Inr (k # fk, s # fs)))
        else filterRow threadCount cutoff ks (tl ss)
      else Inl OutOfBounds)"

text \<open>The outer filter loop (lines 81--104): row \<open>i\<close> of both tables is replaced;
  rows of \<^verbatim>\<open>seedsS\<close> beyond \<^verbatim>\<open>seedsK.size()\<close> stay as they are.\<close>

fun filterAll :: "32 word list \<Rightarrow> 32 word \<Rightarrow> seedsK \<Rightarrow> seedsS \<Rightarrow> error + (seedsK \<times> seedsS)" where
  "filterAll threadCount cutoff [] sS = Inr ([], sS)"
| "filterAll threadCount cutoff (row # rows) sS =
     (case sS of
        [] \<Rightarrow> Inl OutOfBounds
      | srow # srows \<Rightarrow>
          (case filterRow threadCount cutoff row srow of
             Inl e \<Rightarrow> Inl e
           | Inr (fk, fs) \<Rightarrow>
               (case filterAll threadCount cutoff rows srows of
                  Inl e \<Rightarrow> Inl e
                | Inr (rk, rs) \<Rightarrow> Inr (fk # rk, fs # rs))))"

text \<open>\<^verbatim>\<open>filterHeuSeeds\<close> (lines 45--106), run by worker thread \<open>tid\<close>
  (\<^verbatim>\<open>omp_get_thread_num()\<close>).  The counter array of the thread is overwritten with
  zeroes, one per entry of \<^verbatim>\<open>ref.metaCpGs\<close>, and is left holding the tallies.\<close>

definition filterHeuSeeds :: "MyConst \<Rightarrow> nat \<Rightarrow> ReadQueue \<Rightarrow> seedsK \<Rightarrow> seedsS \<Rightarrow> 32 word
    \<Rightarrow> error + (ReadQueue \<times> seedsK \<times> seedsS)" where
  "filterHeuSeeds c tid q sK sS readSize =
     (if tid < length (counts q) then
        (case countAll sK (replicate (length (metaCpGs (ref q))) 0) of
           Inl e \<Rightarrow> Inl e
         | Inr threadCount \<Rightarrow>
             (case filterAll threadCount (countCut c readSize) sK sS of
                Inl e \<Rightarrow> Inl e
              | Inr (fK, fS) \<Rightarrow> Inr (q\<lparr>counts := (counts q)[tid := threadCount]\<rparr>, fK, fS)))
      else Inl OutOfBounds)"

section \<open>bitMatching and bitMatchingRev\<close>

text \<open>Lines 162--197 (and, word for word, 262--297): resolve the seed to a chromosome
  and a position through the meta-CpG and CpG tables, then fetch the reference k-mer in
  the orientation of the strand flag.  \<^verbatim>\<open>pos\<close> stays \<open>0\<close> for a start seed.\<close>

definition fetchStrand :: "RefGenome \<Rightarrow> 8 word \<Rightarrow> 32 word \<Rightarrow> kmer \<Rightarrow> bool \<Rightarrow> error + 64 word" where
  "fetchStrand rf chr p refKmer strand =
     (if unat chr < length (genomeBit rf) then
        if strand then Inr (getSeqKmer (genomeBit rf ! unat chr) (ucast p + getOffset refKmer))
        else Inr (getSeqKmerRev (genomeBit rf ! unat chr) (ucast p + getOffset refKmer))
      else Inl OutOfBounds)"

definition fetchRefKmerBit :: "RefGenome \<Rightarrow> kmer \<Rightarrow> bool \<Rightarrow> error + 64 word" where
  "fetchRefKmerBit rf refKmer strand =
     (if isStartCpG refKmer then
        if unat (getMetaCpG refKmer) < length (metaStartCpGs rf) then
          let cpgInd = unat (start (metaStartCpGs rf ! unat (getMetaCpG refKmer))) in
          if cpgInd < length (cpgStartTable rf)
          then fetchStrand rf (chrom (cpgStartTable rf ! cpgInd)) 0 refKmer strand
          else Inl OutOfBounds
        else Inl OutOfBounds
      else
        if unat (getMetaCpG refKmer) < length (metaCpGs rf) then
          let cpgInd = unat (start (metaCpGs rf ! unat (getMetaCpG refKmer))) in
          if cpgInd < length (cpgTable rf)
          then fetchStrand rf (chrom (cpgTable rf ! cpgInd)) (pos (cpgTable rf ! cpgInd)) refKmer strand
          else Inl OutOfBounds
        else Inl OutOfBounds)"

text \<open>The comparison of line 201 (and 301).\<close>

definition bitMatch :: "BitFun \<Rightarrow> 64 word \<Rightarrow> 64 word \<Rightarrow> bool" where
  "bitMatch b refKmerBit kmerBits = (refKmerBit XOR (kmerBits AND getMask b refKmerBit) = 0)"

text \<open>The loop over the seeds of one offset (lines 157--208 and 257--308).\<close>

fun matchRow :: "BitFun \<Rightarrow> RefGenome \<Rightarrow> 64 word \<Rightarrow> kmer list \<Rightarrow> bool list
    \<Rightarrow> error + (kmer list \<times> bool list)" where
  "matchRow b rf kmerBits [] ss = Inr ([], [])"
| "matchRow b rf kmerBits (refKmer # ks) ss =
     (case ss of
        [] \<Rightarrow> Inl OutOfBounds
      | s # ss' \<Rightarrow>
          (case fetchRefKmerBit rf refKmer s of
             Inl e \<Rightarrow> Inl e
           | Inr refKmerBit \<Rightarrow>
               (case matchRow b rf kmerBits ks ss' of
                  Inl e \<Rightarrow> Inl e
                | Inr (mk, ms) \<Rightarrow>
                    if bitMatch b refKmerBit kmerBits then Inr (refKmer # mk, s # ms)
                    else Inr (mk, ms))))"

text \<open>\<^verbatim>\<open>signiBits\<close> (lines 125 and 223).  The shift count \<open>64 - 2 * KMERLEN\<close> is
  a valid one for \<open>1 \<le> KMERLEN \<le> 32\<close> only.\<close>

definition signiBits :: "MyConst \<Rightarrow> 64 word" where
  "signiBits c = drop_bit (64 - 2 * KMERLEN c) (- 1)"

text \<open>One update of the sliding register (lines 153--154 and 253--254).\<close>

definition shiftIn :: "MyConst \<Rightarrow> 64 word \<Rightarrow> 64 word \<Rightarrow> 64 word" where
  "shiftIn c kmerBits code = (push_bit 2 kmerBits OR code) AND signiBits c"

text \<open>Lines 129--135: the first \<open>KMERLEN - 1\<close> letters, \<open>n\<close> being the loop bound.\<close>

function fwdInit :: "BitFun \<Rightarrow> string \<Rightarrow> nat \<Rightarrow> nat \<Rightarrow> 64 word \<Rightarrow> error + 64 word" where
  "fwdInit b sq n i kmerBits =
     (if i < n then
        if i < length sq
        then fwdInit b sq n (i + 1) (push_bit 2 kmerBits OR getBitRepr b (sq ! i))
        else Inl OutOfBounds
      else Inr kmerBits)"
  by pat_completeness auto
termination
  by (relation "measure (\<lambda>(b, sq, n, i, kmerBits). n - i)") auto

text \<open>Lines 142--212: the rows written for the offsets \<open>offset, \<dots>, n - 1\<close>.\<close>

function fwdLoop :: "MyConst \<Rightarrow> BitFun \<Rightarrow> RefGenome \<Rightarrow> string \<Rightarrow> seedsK \<Rightarrow> seedsS
    \<Rightarrow> nat \<Rightarrow> nat \<Rightarrow> 64 word \<Rightarrow> error + (seedsK \<times> seedsS)" where
  "fwdLoop c b rf sq sK sS n offset kmerBits =
     (if offset < n then
        if offset < length sK \<and> offset < length sS \<and> offset + KMERLEN c - 1 < length sq then
          (let kmerBits' = shiftIn c kmerBits (getBitRepr b (sq ! (offset + KMERLEN c - 1))) in
           case matchRow b rf kmerBits' (sK ! offset) (sS ! offset) of
             Inl e \<Rightarrow> Inl e
           | Inr (mk, ms) \<Rightarrow>
               (case fwdLoop c b rf sq sK sS n (offset + 1) kmerBits' of
                  Inl e \<Rightarrow> Inl e
                | Inr (rk, rs) \<Rightarrow> Inr (mk # rk, ms # rs)))
        else Inl OutOfBounds
      else Inr ([], []))"
  by pat_completeness auto
termination
  by (relation "measure (\<lambda>(c, b, rf, sq, sK, sS, n, offset, kmerBits). n - offset)") auto

text \<open>\<^verbatim>\<open>newSeedsK\<close> and \<^verbatim>\<open>newSeedsS\<close> are created with
  \<^verbatim>\<open>seedsK.size()\<close> empty rows; the rows the loop did not write stay empty.\<close>

definition padRows :: "nat \<Rightarrow> 'a list list \<Rightarrow> 'a list list" where
  "padRows n rows = rows @ replicate (n - length rows) []"

text \<open>\<^verbatim>\<open>bitMatching\<close> (lines 121--217).  The loop bound
  \<^verbatim>\<open>r.seq.size() - KMERLEN + 1\<close> is computed in \<^verbatim>\<open>size_t\<close>; the loop is
  reached only after line 133 has read \<^verbatim>\<open>r.seq[KMERLEN - 2]\<close>, so the read has at
  least \<open>KMERLEN - 1\<close> letters and the bound is \<open>length + 1 - KMERLEN\<close> without
  wrap-around.  (If \<^verbatim>\<open>r.seq\<close> is a \<^verbatim>\<open>std::string\<close>, reading its terminator at
  the index \<^verbatim>\<open>size()\<close> is defined; the source reads it only for a read of at most
  \<open>KMERLEN - 2\<close> letters, and then goes on to read beyond it, in line 133 or, the
  bound having wrapped around, in line 154.  The model reports the access at
  \<^verbatim>\<open>size()\<close> already.)  The object state is returned as it was: the function
  writes to no member.\<close>

definition bitMatching :: "MyConst \<Rightarrow> BitFun \<Rightarrow> ReadQueue \<Rightarrow> Read \<Rightarrow> seedsK \<Rightarrow> seedsS
    \<Rightarrow> error + (ReadQueue \<times> seedsK \<times> seedsS)" where
  "bitMatching c b q r sK sS =
     (case fwdInit b (seq r) (KMERLEN c - 1) 0 0 of
        Inl e \<Rightarrow> Inl e
      | Inr kmerBits \<Rightarrow>
          (case fwdLoop c b (ref q) (seq r) sK sS (length (seq r) + 1 - KMERLEN c) 0 kmerBits of
             Inl e \<Rightarrow> Inl e
           | Inr (rk, rs) \<Rightarrow> Inr (q, padRows (length sK) rk, padRows (length sK) rs)))"

text \<open>Subtraction of \<^verbatim>\<open>unsigned int\<close> values, with its wrap-around.\<close>

definition u32sub :: "nat \<Rightarrow> nat \<Rightarrow> nat" where
  "u32sub a b = (a + 2 ^ 32 - b mod 2 ^ 32) mod 2 ^ 32"

text \<open>Lines 228--234: \<open>i\<close> runs down from \<open>readSize - 1\<close> while \<open>i > lim\<close>, where
  \<open>lim\<close> is \<open>readSize - KMERLEN\<close>.\<close>

function revInit :: "BitFun \<Rightarrow> string \<Rightarrow> nat \<Rightarrow> nat \<Rightarrow> 64 word \<Rightarrow> error + 64 word" where
  "revInit b sq lim i kmerBits =
     (if i > lim then
        if i < length sq
        then revInit b sq lim (i - 1) (push_bit 2 kmerBits OR getBitReprRev b (sq ! i))
        else Inl OutOfBounds
      else Inr kmerBits)"
  by pat_completeness auto
termination
  by (relation "measure (\<lambda>(b, sq, lim, i, kmerBits). i)") auto

text \<open>Lines 243--312: \<open>offset\<close> runs down to \<open>1\<close>, \<open>kmerInd\<close> runs up; the rows
  written for \<open>kmerInd, kmerInd + 1, \<dots>\<close>.\<close>

function revLoop :: "MyConst \<Rightarrow> BitFun \<Rightarrow> RefGenome \<Rightarrow> string \<Rightarrow> seedsK \<Rightarrow> seedsS
    \<Rightarrow> nat \<Rightarrow> nat \<Rightarrow> 64 word \<Rightarrow> error + (seedsK \<times> seedsS)" where
  "revLoop c b rf sq sK sS offset kmerInd kmerBits =
     (if offset > 0 then
        if kmerInd < length sK \<and> kmerInd < length sS \<and> offset - 1 < length sq then
          (let kmerBits' = shiftIn c kmerBits (getBitReprRev b (sq ! (offset - 1))) in
           case matchRow b rf kmerBits' (sK ! kmerInd) (sS ! kmerInd) of
             Inl e \<Rightarrow> Inl e
           | Inr (mk, ms) \<Rightarrow>
               (case revLoop c b rf sq sK sS (offset - 1) (kmerInd + 1) kmerBits' of
                  Inl e \<Rightarrow> Inl e
                | Inr (rk, rs) \<Rightarrow> Inr (mk # rk, ms # rs)))
        else Inl OutOfBounds
      else Inr ([], []))"
  by pat_completeness auto
termination
  by (relation "measure (\<lambda>(c, b, rf, sq, sK, sS, offset, kmerInd, kmerBits). offset)") auto

text \<open>\<^verbatim>\<open>bitMatchingRev\<close> (lines 218--316); \<^verbatim>\<open>readSize\<close> is an
  \<^verbatim>\<open>unsigned int\<close>.\<close>

definition bitMatchingRev :: "MyConst \<Rightarrow> BitFun \<Rightarrow> ReadQueue \<Rightarrow> Read \<Rightarrow> seedsK \<Rightarrow> seedsS
    \<Rightarrow> error + (ReadQueue \<times> seedsK \<times> seedsS)" where
  "bitMatchingRev c b q r sK sS =
     (let readSize = length (seq r) mod 2 ^ 32 in
      case revInit b (seq r) (u32sub readSize (KMERLEN c)) (u32sub readSize 1) 0 of
        Inl e \<Rightarrow> Inl e
      | Inr kmerBits \<Rightarrow>
          (case revLoop c b (ref q) (seq r) sK sS (u32sub readSize (KMERLEN c)) 0 kmerBits of
             Inl e \<Rightarrow> Inl e
           | Inr (rk, rs) \<Rightarrow> Inr (q, padRows (length sK) rk, padRows (length sK) rs)))"

section \<open>Seed-list invariants and the bit encodings recomputed from scratch\<close>

text \<open>The two parallel tables of a read: one row per k-mer offset, and in every row as
  many strand flags as seeds.\<close>

definition alignedRows :: "seedsK \<Rightarrow> seedsS \<Rightarrow> bool" where
  "alignedRows sK sS = list_all2 (\<lambda>ks ss. length ks = length ss) sK sS"

text \<open>\<open>keptFrom sK sS fK fS\<close>: row by row, the pairs (seed, flag) of \<open>fK\<close>, \<open>fS\<close>
  are a subsequence of the pairs of \<open>sK\<close>, \<open>sS\<close>: a seed that stays keeps its own flag
  and the order.\<close>

definition keptFrom :: "seedsK \<Rightarrow> seedsS \<Rightarrow> seedsK \<Rightarrow> seedsS \<Rightarrow> bool" where
  "keptFrom sK sS fK fS =
     list_all2 (\<lambda>(fk, fs) (ks, ss). subseq (zip fk fs) (zip ks ss)) (zip fK fS) (zip sK sS)"

text \<open>The 2-bit packing of a word, first letter in the highest position.\<close>

definition packKmer :: "(char \<Rightarrow> 64 word) \<Rightarrow> string \<Rightarrow> 64 word" where
  "packKmer code w = foldl (\<lambda>bits ch. push_bit 2 bits OR code ch) 0 w"

text \<open>The encoding of the read's k-mer at \<open>offset\<close>, recomputed from its letters.\<close>

definition kmerBitsAt :: "MyConst \<Rightarrow> BitFun \<Rightarrow> string \<Rightarrow> nat \<Rightarrow> 64 word" where
  "kmerBitsAt c b sq offset =
     packKmer (getBitRepr b) (take (KMERLEN c) (drop offset sq)) AND signiBits c"

text \<open>The encoding of the k-mer at \<open>offset\<close> of the reverse complement of the read,
  recomputed from its letters: the reverse complement is the read read backwards, each
  letter under the complementing code \<^verbatim>\<open>getBitReprRev\<close>.\<close>

definition revKmerBitsAt :: "MyConst \<Rightarrow> BitFun \<Rightarrow> string \<Rightarrow> nat \<Rightarrow> 64 word" where
  "revKmerBitsAt c b sq offset =
     packKmer (getBitReprRev b) (take (KMERLEN c) (drop offset (rev sq))) AND signiBits c"

text \<open>The test a seed has to pass at an offset whose read k-mer has the encoding
  \<open>kmerBits\<close>: the reference k-mer at the seed's position, on the strand of its flag,
  XORed with the masked read k-mer, is zero.\<close>

definition survives :: "BitFun \<Rightarrow> RefGenome \<Rightarrow> 64 word \<Rightarrow> kmer \<times> bool \<Rightarrow> bool" where
  "survives b rf kmerBits seed =
     (case fetchRefKmerBit rf (fst seed) (snd seed) of
        Inl e \<Rightarrow> False
      | Inr refKmerBit \<Rightarrow> refKmerBit XOR (kmerBits AND getMask b refKmerBit) = 0)"

text \<open>A meta-CpG is named by the start flag and the index of a seed: the index alone
  names a row in one of two tables.\<close>

definition metaKey :: "kmer \<Rightarrow> bool \<times> 64 word" where
  "metaKey k = (isStartCpG k, getMetaCpG k)"

text \<open>The number of k-mer offsets whose seed list holds a seed of the meta-CpG \<open>m\<close>.\<close>

definition tally :: "seedsK \<Rightarrow> bool \<times> 64 word \<Rightarrow> nat" where
  "tally sK m = length (filter (\<lambda>row. m \<in> set (map metaKey row)) sK)"

text \<open>The bound of the counting heuristic, \<open>L - k + 1 - k * M\<close>, as a natural
  number (zero where the difference is negative) and as an integer.\<close>

definition heuBound :: "MyConst \<Rightarrow> nat \<Rightarrow> nat" where
  "heuBound c L = L + 1 - KMERLEN c - KMERLEN c * MISCOUNT c"

definition heuBoundInt :: "MyConst \<Rightarrow> nat \<Rightarrow> int" where
  "heuBoundInt c L = int L - int (KMERLEN c) + 1 - int (KMERLEN c) * int (MISCOUNT c)"

text \<open>What counting from zero leaves in the counter of index \<open>m\<close>: for every offset,
  the number of seeds of its list that carry the index \<open>m\<close> and do not follow a seed
  with the same index (the first seed of a list is compared with
  \<^verbatim>\<open>0xffffffffffffffff\<close>); the sum is taken in \<^verbatim>\<open>unsigned int\<close>.\<close>

definition runsOf :: "64 word \<Rightarrow> kmer list \<Rightarrow> nat" where
  "runsOf m row = count_list (tl (remdups_adj (- 1 # map getMetaCpG row))) m"

definition zeroTally :: "seedsK \<Rightarrow> 64 word \<Rightarrow> 32 word" where
  "zeroTally sK m = of_nat (sum_list (map (runsOf m) sK))"

text \<open>In every offset's list the seeds with the same index stand next to each other.\<close>

definition adjacentIds :: "seedsK \<Rightarrow> bool" where
  "adjacentIds sK = list_all (\<lambda>row. distinct (remdups_adj (map getMetaCpG row))) sK"

text \<open>No index is used by a start seed and by an ordinary seed of the same read.\<close>

definition flagsAgree :: "seedsK \<Rightarrow> bool" where
  "flagsAgree sK =
     list_all (\<lambda>k. list_all (\<lambda>k'. getMetaCpG k \<noteq> getMetaCpG k' \<or> isStartCpG k = isStartCpG k')
       (concat sK)) (concat sK)"

text \<open>Every seed of the tables, with its flag, resolves to a reference k-mer: its index
  is a row of the meta-CpG table its start flag selects, and the CpG and chromosome
  found there exist.\<close>

definition seedsResolve :: "RefGenome \<Rightarrow> seedsK \<Rightarrow> seedsS \<Rightarrow> bool" where
  "seedsResolve rf sK sS =
     list_all (\<lambda>(ks, ss). list_all (\<lambda>(k, s). fetchRefKmerBit rf k s \<noteq> Inl OutOfBounds) (zip ks ss))
       (zip sK sS)"

text \<open>The values the register \<^verbatim>\<open>kmerBits\<close> takes in the main loop of
  \<^verbatim>\<open>bitMatching\<close> (lines 153--154), one per iteration, up to the first access
  beyond the read.\<close>

function fwdRegs :: "MyConst \<Rightarrow> BitFun \<Rightarrow> string \<Rightarrow> nat \<Rightarrow> nat \<Rightarrow> 64 word \<Rightarrow> 64 word list" where
  "fwdRegs c b sq n offset kmerBits =
     (if offset < n \<and> offset + KMERLEN c - 1 < length sq then
        (let kmerBits' = shiftIn c kmerBits (getBitRepr b (sq ! (offset + KMERLEN c - 1)))
         in kmerBits' # fwdRegs c b sq n (offset + 1) kmerBits')
      else [])"
  by pat_completeness auto
termination
  by (relation "measure (\<lambda>(c, b, sq, n, offset, kmerBits). n - offset)") auto

definition kmerBitsTrace :: "MyConst \<Rightarrow> BitFun \<Rightarrow> string \<Rightarrow> 64 word list" where
  "kmerBitsTrace c b sq =
     (case fwdInit b sq (KMERLEN c - 1) 0 0 of
        Inl e \<Rightarrow> []
      | Inr kmerBits \<Rightarrow> fwdRegs c b sq (length sq + 1 - KMERLEN c) 0 kmerBits)"

text \<open>The values the register \<^verbatim>\<open>kmerBits\<close> takes in the main loop of
  \<^verbatim>\<open>bitMatchingRev\<close> (lines 253--254), one per iteration, in the order of
  \<^verbatim>\<open>kmerInd\<close>, up to the first access beyond the read.\<close>

function revRegs :: "MyConst \<Rightarrow> BitFun \<Rightarrow> string \<Rightarrow> nat \<Rightarrow> 64 word \<Rightarrow> 64 word list" where
  "revRegs c b sq offset kmerBits =
     (if offset > 0 \<and> offset - 1 < length sq then
        (let kmerBits' = shiftIn c kmerBits (getBitReprRev b (sq ! (offset - 1)))
         in kmerBits' # revRegs c b sq (offset - 1) kmerBits')
      else [])"
  by pat_completeness auto
termination
  by (relation "measure (\<lambda>(c, b, sq, offset, kmerBits). offset)") auto

definition kmerBitsRevTrace :: "MyConst \<Rightarrow> BitFun \<Rightarrow> string \<Rightarrow> 64 word list" where
  "kmerBitsRevTrace c b sq =
     (let readSize = length sq mod 2 ^ 32 in
      case revInit b sq (u32sub readSize (KMERLEN c)) (u32sub readSize 1) 0 of
        Inl e \<Rightarrow> []
      | Inr kmerBits \<Rightarrow> revRegs c b sq (u32sub readSize (KMERLEN c)) kmerBits)"

section \<open>matchReads\<close>

text \<open>
  Modelled from the spec: the seeding step.  The code that derives the seeds of a read
  from the hash index is not in the sources; the spec makes it a lookup that reads the
  index and the read and yields one seed-list collection for the read as given and one
  for its reverse complement.
\<close>

record Seeding =
  seedsFwd :: "RefGenome \<Rightarrow> Read \<Rightarrow> seedsK \<times> seedsS"
  seedsRev :: "RefGenome \<Rightarrow> Read \<Rightarrow> seedsK \<times> seedsS"

type_synonym readResult = "(seedsK \<times> seedsS) \<times> (seedsK \<times> seedsS)"

text \<open>
  Modelled from the spec: the work of \<^verbatim>\<open>matchReads\<close> on one read (declared at
  lines 32--38 of \<^verbatim>\<open>ReadQueue.h\<close>, body not in the sources).  The spec: for
  each read, derive seeds, prune them with \<^verbatim>\<open>filterHeuSeeds\<close>, bit-verify the
  forward orientation, bit-verify the reverse orientation; a read shorter than the k-mer
  length yields an empty result for that read and is not surfaced as an error.
\<close>

definition matchRead :: "MyConst \<Rightarrow> BitFun \<Rightarrow> Seeding \<Rightarrow> nat \<Rightarrow> ReadQueue \<Rightarrow> Read
    \<Rightarrow> error + (ReadQueue \<times> readResult)" where
  "matchRead c b sd tid q r =
     (if length (seq r) < KMERLEN c then Inr (q, ([], []), ([], []))
      else
        (case seedsFwd sd (ref q) r of (fK, fS) \<Rightarrow>
         case filterHeuSeeds c tid q fK fS (of_nat (length (seq r))) of
           Inl e \<Rightarrow> Inl e
         | Inr (q1, fK1, fS1) \<Rightarrow>
         case bitMatching c b q1 r fK1 fS1 of
           Inl e \<Rightarrow> Inl e
         | Inr (q2, fK2, fS2) \<Rightarrow>
         case seedsRev sd (ref q2) r of (rK, rS) \<Rightarrow>
         case filterHeuSeeds c tid q2 rK rS (of_nat (length (seq r))) of
           Inl e \<Rightarrow> Inl e
         | Inr (q3, rK1, rS1) \<Rightarrow>
         case bitMatchingRev c b q3 r rK1 rS1 of
           Inl e \<Rightarrow> Inl e
         | Inr (q4, rK2, rS2) \<Rightarrow> Inr (q4, (fK2, fS2), (rK2, rS2))))"

text \<open>
  Modelled from the spec: a batch, as a list of reads each paired with the worker thread
  that processes it.  The reads are independent tasks; the model runs them one after
  the other and collects one result per read.
\<close>

fun matchAll :: "MyConst \<Rightarrow> BitFun \<Rightarrow> Seeding \<Rightarrow> ReadQueue \<Rightarrow> (nat \<times> Read) list
    \<Rightarrow> error + (ReadQueue \<times> readResult list)" where
  "matchAll c b sd q [] = Inr (q, [])"
| "matchAll c b sd q ((tid, r) # rest) =
     (case matchRead c b sd tid q r of
        Inl e \<Rightarrow> Inl e
      | Inr (q', res) \<Rightarrow>
          (case matchAll c b sd q' rest of
             Inl e \<Rightarrow> Inl e
           | Inr (q'', ress) \<Rightarrow> Inr (q'', res # ress)))"

text \<open>
  Modelled from the spec: \<^verbatim>\<open>matchReads(procReads)\<close> matches the first
  \<open>procReads\<close> reads of the buffer; \<open>worker i\<close> is the thread that takes read \<open>i\<close>.
\<close>

definition matchReads :: "MyConst \<Rightarrow> BitFun \<Rightarrow> Seeding \<Rightarrow> (nat \<Rightarrow> nat) \<Rightarrow> ReadQueue \<Rightarrow> nat
    \<Rightarrow> error + (ReadQueue \<times> readResult list)" where
  "matchReads c b sd worker q procReads =
     (if procReads \<le> length (readBuffer q)
      then matchAll c b sd q
             (map (\<lambda>i. (worker i, readBuffer q ! i)) [0..<procReads])
      else Inl OutOfBounds)"

section \<open>generateMetaCpGs\<close>

text \<open>
  Modelled from the spec: \<^verbatim>\<open>RefGenome::generateMetaCpGs\<close> (declared at lines
  71--72 of \<^verbatim>\<open>RefGenome.h\<close>, body not in the sources).  The spec: the CpG table is
  scanned in position order per chromosome; a CpG joins the open meta-CpG if it lies
  within one read length of it, else a new meta-CpG starts; a meta-CpG is a run of CpGs
  that all fall within one window of the size of a read, and stores the index of its
  first CpG.  The read length (\<^verbatim>\<open>CONST.h\<close>) is the parameter \<open>readLen\<close>.
\<close>

text \<open>\<open>joins readLen first cpg\<close>: \<open>cpg\<close> lies in the window that opens at \<open>first\<close>.\<close>

definition joins :: "nat \<Rightarrow> CpG \<Rightarrow> CpG \<Rightarrow> bool" where
  "joins readLen first cpg =
     (chrom cpg = chrom first \<and> unat (pos cpg) \<le> unat (pos first) + readLen)"

text \<open>The scan: \<open>first\<close> is the first CpG of the open meta-CpG, \<open>i\<close> the index of the
  next CpG; the result lists the indices at which a new meta-CpG starts.\<close>

fun metaStarts :: "nat \<Rightarrow> CpG \<Rightarrow> CpG list \<Rightarrow> nat \<Rightarrow> nat list" where
  "metaStarts readLen first [] i = []"
| "metaStarts readLen first (cpg # rest) i =
     (if joins readLen first cpg then metaStarts readLen first rest (i + 1)
      else i # metaStarts readLen cpg rest (i + 1))"

definition groupCpGs :: "nat \<Rightarrow> CpG list \<Rightarrow> metaCpG list" where
  "groupCpGs readLen cpgs =
     (case cpgs of
        [] \<Rightarrow> []
      | first # rest \<Rightarrow> map (\<lambda>i. \<lparr>start = of_nat i\<rparr>) (0 # metaStarts readLen first rest 1))"

text \<open>The member function fills both meta-CpG tables of the index.\<close>

definition generateMetaCpGs :: "nat \<Rightarrow> RefGenome \<Rightarrow> RefGenome" where
  "generateMetaCpGs readLen rf =
     rf\<lparr>metaCpGs := groupCpGs readLen (cpgTable rf),
        metaStartCpGs := groupCpGs readLen (cpgStartTable rf)\<rparr>"

text \<open>Two CpGs, given by their indices in the table, belong to the same meta-CpG when
  no meta-CpG starts after the one and at or before the other.\<close>

definition sameMetaCpG :: "metaCpG list \<Rightarrow> nat \<Rightarrow> nat \<Rightarrow> bool" where
  "sameMetaCpG metas i j =
     list_all (\<lambda>m. \<not> (min i j < unat (start m) \<and> unat (start m) \<le> max i j)) metas"

text \<open>The index of the first CpG of the meta-CpG that holds CpG \<open>i\<close>: the last start
  at or before \<open>i\<close>.\<close>

definition firstCpGOf :: "metaCpG list \<Rightarrow> nat \<Rightarrow> nat" where
  "firstCpGOf metas i = Max (set (filter (\<lambda>s. s \<le> i) (map (\<lambda>m. unat (start m)) metas)))"

text \<open>Two CpGs are within one read length of each other: on one chromosome, and their
  positions differ by at most \<open>readLen\<close>.\<close>

definition withinReadLen :: "nat \<Rightarrow> CpG \<Rightarrow> CpG \<Rightarrow> bool" where
  "withinReadLen readLen a b =
     (chrom a = chrom b \<and> unat (pos a) \<le> unat (pos b) + readLen \<and>
      unat (pos b) \<le> unat (pos a) + readLen)"

text \<open>The table is in position order per chromosome.\<close>

definition cpgSorted :: "CpG list \<Rightarrow> bool" where
  "cpgSorted cpgs =
     sorted_wrt (\<lambda>a b. chrom a < chrom b \<or> (chrom a = chrom b \<and> pos a \<le> pos b)) cpgs"

text \<open>For the proofs, the same scan once more, now listing for every CpG the index of
  the first CpG of the meta-CpG it joins (\<open>fi\<close> is the index of \<open>first\<close>).\<close>

fun groupFirsts :: "nat \<Rightarrow> CpG \<Rightarrow> nat \<Rightarrow> CpG list \<Rightarrow> nat \<Rightarrow> nat list" where
  "groupFirsts readLen first fi [] i = []"
| "groupFirsts readLen first fi (cpg # rest) i =
     (if joins readLen first cpg then fi # groupFirsts readLen first fi rest (i + 1)
      else i # groupFirsts readLen cpg i rest (i + 1))"

definition firstsOf :: "nat \<Rightarrow> CpG list \<Rightarrow> nat list" where
  "firstsOf readLen cpgs =
     (case cpgs of [] \<Rightarrow> [] | first # rest \<Rightarrow> 0 # groupFirsts readLen first 0 rest 1)"

section \<open>A small reference and codec for concrete evaluation\<close>

definition exConst :: MyConst where
  "exConst = \<lparr>KMERLEN = 2, MISCOUNT = 1\<rparr>"

text \<open>The encoding named in \<^verbatim>\<open>RefGenome.h\<close> (A 00, C 01, G 10, T 11), its
  complement, and a mask that lets a T of the read stand for a C of the reference.\<close>

definition exCodec :: BitFun where
  "exCodec = \<lparr>
     getBitRepr = (\<lambda>ch. if ch = CHR ''C'' then 1 else if ch = CHR ''G'' then 2
                         else if ch = CHR ''T'' then 3 else 0),
     getBitReprRev = (\<lambda>ch. if ch = CHR ''A'' then 3 else if ch = CHR ''C'' then 2
                         else if ch = CHR ''G'' then 1 else 0),
     getMask = (\<lambda>x. NOT (push_bit 1 (x AND NOT (drop_bit 1 x) AND 0x5555555555555555)))\<rparr>"

definition exDna :: "string \<Rightarrow> DnaBitStr" where
  "exDna s = \<lparr>
     getSeqKmer = (\<lambda>p. packKmer (getBitRepr exCodec) (take 2 (drop (unat p) s))),
     getSeqKmerRev = (\<lambda>p. packKmer (getBitReprRev exCodec) (rev (take 2 (drop (unat p) s))))\<rparr>"

text \<open>One chromosome \<open>AAC\<close> with CpG entries at positions 0 and 1, each a meta-CpG
  of its own.\<close>

definition exRef :: RefGenome where
  "exRef = \<lparr>cpgTable = [\<lparr>chrom = 0, pos = 0\<rparr>, \<lparr>chrom = 0, pos = 1\<rparr>], cpgStartTable = [],
     genomeBit = [exDna ''AAC''], tabIndex = [], kmerTable = [], strandTable = [],
     metaCpGs = [\<lparr>start = 0\<rparr>, \<lparr>start = 1\<rparr>], metaStartCpGs = [], filteredKmers = {}\<rparr>"

text \<open>Two worker threads whose counter arrays hold left-overs.\<close>

definition exQueue :: ReadQueue where
  "exQueue = \<lparr>ref = exRef, readBuffer = [], counts = [[], [7]]\<rparr>"

definition seedIn :: "64 word \<Rightarrow> 64 word \<Rightarrow> kmer" where
  "seedIn m p = \<lparr>getMetaCpG = m, getOffset = p, isStartCpG = False\<rparr>"

definition seedAt :: "64 word \<Rightarrow> kmer" where
  "seedAt p = seedIn 0 p"

text \<open>The seeds of the two k-mers \<open>AA\<close> (position 0) and \<open>AC\<close> (position 1) on
  the forward strand.\<close>

definition exSeedsK :: seedsK where
  "exSeedsK = [[seedAt 0], [seedAt 1]]"

definition exSeedsS :: seedsS where
  "exSeedsS = [[True], [True]]"

definition exRead :: Read where
  "exRead = \<lparr>seq = ''AAG''\<rparr>"

definition exReadRev :: Read where
  "exReadRev = \<lparr>seq = ''GTTT''\<rparr>"

text \<open>A seeding that proposes the two seeds above for every read, and a buffer with a
  read of three letters and a read shorter than the k-mer length.\<close>

definition exSeeding :: Seeding where
  "exSeeding = \<lparr>seedsFwd = (\<lambda>rf r. (exSeedsK, exSeedsS)),
                 seedsRev = (\<lambda>rf r. (exSeedsK, exSeedsS))\<rparr>"

definition exBatchQueue :: ReadQueue where
  "exBatchQueue = exQueue\<lparr>readBuffer := [\<lparr>seq = ''AAC''\<rparr>, \<lparr>seq = ''A''\<rparr>]\<rparr>"

text \<open>An index with one ordinary meta-CpG and two start meta-CpGs (two chromosomes,
  each with a CpG near its beginning), and the seed of the second start meta-CpG.\<close>

definition exStartRef :: RefGenome where
  "exStartRef = \<lparr>cpgTable = [\<lparr>chrom = 0, pos = 1\<rparr>],
     cpgStartTable = [\<lparr>chrom = 0, pos = 0\<rparr>, \<lparr>chrom = 1, pos = 0\<rparr>],
     genomeBit = [exDna ''AAC'', exDna ''AAC''], tabIndex = [], kmerTable = [],
     strandTable = [], metaCpGs = [\<lparr>start = 0\<rparr>],
     metaStartCpGs = [\<lparr>start = 0\<rparr>, \<lparr>start = 1\<rparr>], filteredKmers = {}\<rparr>"

definition exStartQueue :: ReadQueue where
  "exStartQueue = \<lparr>ref = exStartRef, readBuffer = [], counts = [[]]\<rparr>"

definition exStartSeed :: kmer where
  "exStartSeed = \<lparr>getMetaCpG = 1, getOffset = 0, isStartCpG = True\<rparr>"

text \<open>Seed tables of a read of five letters (four k-mer offsets).  In the first, meta-CpG
  0 is hit at two offsets and meta-CpG 1 at one; in the second, meta-CpG 0 is hit at one
  offset only, by two seeds that do not stand next to each other.\<close>

definition exTallySeedsK :: seedsK where
  "exTallySeedsK = [[seedIn 0 0, seedIn 1 0], [seedIn 0 1], [], []]"

definition exTallySeedsS :: seedsS where
  "exTallySeedsS = [[True, False], [True], [], []]"

definition exSplitSeedsK :: seedsK where
  "exSplitSeedsK = [[seedIn 0 0, seedIn 1 0, seedIn 0 1], [], [], []]"

definition exSplitSeedsS :: seedsS where
  "exSplitSeedsS = [[True, False, True], [], [], []]"

text \<open>Two worker threads whose counter arrays have the size of the meta-CpG table; the
  second holds counts left by an earlier read.\<close>

definition exStaleQueue :: ReadQueue where
  "exStaleQueue = exQueue\<lparr>counts := [[0, 0], [7, 7]]\<rparr>"

text \<open>The seed table of a read of two letters, as long as a k-mer: one offset, one seed
  of meta-CpG 0.\<close>

definition exShortSeedsK :: seedsK where
  "exShortSeedsK = [[seedAt 0]]"

definition exShortSeedsS :: seedsS where
  "exShortSeedsS = [[True]]"

text \<open>Seed tables of a read of five letters over the index \<open>exStartRef\<close>: the ordinary
  meta-CpG 0 is hit at the first offset, the start meta-CpG 0 at the second.\<close>

definition exStartSeed0 :: kmer where
  "exStartSeed0 = \<lparr>getMetaCpG = 0, getOffset = 0, isStartCpG = True\<rparr>"

definition exMixedSeedsK :: seedsK where
  "exMixedSeedsK = [[seedIn 0 1], [exStartSeed0], [], []]"

definition exMixedSeedsS :: seedsS where
  "exMixedSeedsS = [[True], [True], [], []]"

text \<open>Three CpGs of one chromosome at the positions 0, 60 and 120, for a read length
  of 100.\<close>

definition exCpGs :: "CpG list" where
  "exCpGs = [\<lparr>chrom = 0, pos = 0\<rparr>, \<lparr>chrom = 0, pos = 60\<rparr>, \<lparr>chrom = 0, pos = 120\<rparr>]"

definition exCpGRef :: RefGenome where
  "exCpGRef = exRef\<lparr>cpgTable := exCpGs\<rparr>"

section \<open>Properties of the matching engine\<close>

declare fwdLoop.simps [simp del] revLoop.simps [simp del] fwdInit.simps [simp del]
  revInit.simps [simp del]

subsection \<open>The seed tables stay aligned\<close>

lemma filterRow_kept:
  "filterRow tc cutoff ks ss = Inr (fk, fs) \<Longrightarrow>
     length fk = length fs \<and> subseq (zip fk fs) (zip ks ss)"
proof (induction ks arbitrary: ss fk fs)
  case Nil
  then show ?case by simp
next
  case (Cons k ks)
  show ?case
  proof (cases "cutoff \<le> tc ! unat (getMetaCpG k)")
    case True
    with Cons.prems obtain s ss' fk' fs' where
      ss: "ss = s # ss'" and r: "filterRow tc cutoff ks ss' = Inr (fk', fs')"
      and out: "fk = k # fk'" "fs = s # fs'"
      by (auto split: if_splits list.splits sum.splits)
    from Cons.IH [OF r] show ?thesis by (simp add: ss out)
  next
    case False
    with Cons.prems have r: "filterRow tc cutoff ks (tl ss) = Inr (fk, fs)"
      by (auto split: if_splits)
    from Cons.IH [OF r] show ?thesis
      by (cases ss) (auto intro: subseq_Cons')
  qed
qed

lemma filterAll_kept:
  "filterAll tc cutoff sK sS = Inr (fK, fS) \<Longrightarrow> alignedRows sK sS \<Longrightarrow>
     alignedRows fK fS \<and> keptFrom sK sS fK fS"
proof (induction sK arbitrary: sS fK fS)
  case Nil
  then show ?case by (simp add: alignedRows_def keptFrom_def)
next
  case (Cons row rows)
  from Cons.prems obtain srow srows fk fs rk rs where
    sS: "sS = srow # srows" and row: "filterRow tc cutoff row srow = Inr (fk, fs)"
    and rest: "filterAll tc cutoff rows srows = Inr (rk, rs)"
    and out: "fK = fk # rk" "fS = fs # rs"
    by (auto split: list.splits sum.splits)
  from Cons.prems(2) have al: "alignedRows rows srows"
    by (simp add: sS alignedRows_def)
  from Cons.IH [OF rest al] filterRow_kept [OF row] show ?case
    by (simp add: sS out alignedRows_def keptFrom_def)
qed

lemma matchRow_kept:
  "matchRow b rf bits ks ss = Inr (mk, ms) \<Longrightarrow>
     length mk = length ms \<and> subseq (zip mk ms) (zip ks ss)"
proof (induction ks arbitrary: ss mk ms)
  case Nil
  then show ?case by simp
next
  case (Cons k ks)
  from Cons.prems obtain s ss' x mk' ms' where
    ss: "ss = s # ss'" and f: "fetchRefKmerBit rf k s = Inr x"
    and r: "matchRow b rf bits ks ss' = Inr (mk', ms')"
    and out: "(mk, ms) = (if bitMatch b x bits then (k # mk', s # ms') else (mk', ms'))"
    by (auto split: list.splits sum.splits if_splits)
  from Cons.IH [OF r] out show ?case
    by (auto simp: ss split: if_splits intro: subseq_Cons')
qed

lemma fwdLoop_done: "\<not> offset < n \<Longrightarrow> fwdLoop c b rf sq sK sS n offset bits = Inr ([], [])"
  by (subst fwdLoop.simps) simp

lemma fwdLoop_Inr:
  assumes "fwdLoop c b rf sq sK sS n offset bits = Inr (rk, rs)" and "offset < n"
  obtains mk ms rk' rs' where
    "offset < length sK" "offset < length sS" "offset + KMERLEN c - 1 < length sq"
    "matchRow b rf (shiftIn c bits (getBitRepr b (sq ! (offset + KMERLEN c - 1))))
       (sK ! offset) (sS ! offset) = Inr (mk, ms)"
    "fwdLoop c b rf sq sK sS n (offset + 1)
       (shiftIn c bits (getBitRepr b (sq ! (offset + KMERLEN c - 1)))) = Inr (rk', rs')"
    "rk = mk # rk'" "rs = ms # rs'"
  using assms
  by (subst (asm) fwdLoop.simps) (simp add: Let_def split: if_splits sum.splits prod.splits)

lemma fwdLoop_rows:
  "fwdLoop c b rf sq sK sS n offset bits = Inr (rk, rs) \<Longrightarrow>
     length rk = n - offset \<and> length rs = n - offset \<and>
     (\<forall>j<n - offset. offset + j < length sK \<and> offset + j < length sS \<and>
        length (rk ! j) = length (rs ! j) \<and>
        subseq (zip (rk ! j) (rs ! j)) (zip (sK ! (offset + j)) (sS ! (offset + j))))"
proof (induction "n - offset" arbitrary: offset bits rk rs)
  case 0
  then show ?case by (simp add: fwdLoop_done)
next
  case (Suc m)
  from Suc.hyps(2) have lt: "offset < n" by simp
  from Suc.prems lt obtain mk ms rk' rs' where
    inb: "offset < length sK" "offset < length sS"
    and row: "matchRow b rf (shiftIn c bits (getBitRepr b (sq ! (offset + KMERLEN c - 1))))
       (sK ! offset) (sS ! offset) = Inr (mk, ms)"
    and rest: "fwdLoop c b rf sq sK sS n (offset + 1)
       (shiftIn c bits (getBitRepr b (sq ! (offset + KMERLEN c - 1)))) = Inr (rk', rs')"
    and out: "rk = mk # rk'" "rs = ms # rs'"
    by (rule fwdLoop_Inr)
  from Suc.hyps(2) have m: "m = n - (offset + 1)" by simp
  note ih = Suc.hyps(1) [OF m rest]
  have "offset + j < length sK \<and> offset + j < length sS \<and>
        length (rk ! j) = length (rs ! j) \<and>
        subseq (zip (rk ! j) (rs ! j)) (zip (sK ! (offset + j)) (sS ! (offset + j)))"
    if j: "j < n - offset" for j
  proof (cases j)
    case 0
    with matchRow_kept [OF row] inb show ?thesis by (simp add: out)
  next
    case (Suc j')
    with j have "j' < n - (offset + 1)" by simp
    with ih show ?thesis by (simp add: out Suc)
  qed
  with ih lt show ?case by (simp add: out)
qed

lemma revLoop_done:
  "\<not> offset > 0 \<Longrightarrow> revLoop c b rf sq sK sS offset kmerInd bits = Inr ([], [])"
  by (subst revLoop.simps) simp

lemma revLoop_Inr:
  assumes "revLoop c b rf sq sK sS offset kmerInd bits = Inr (rk, rs)" and "offset > 0"
  obtains mk ms rk' rs' where
    "kmerInd < length sK" "kmerInd < length sS" "offset - 1 < length sq"
    "matchRow b rf (shiftIn c bits (getBitReprRev b (sq ! (offset - 1))))
       (sK ! kmerInd) (sS ! kmerInd) = Inr (mk, ms)"
    "revLoop c b rf sq sK sS (offset - 1) (kmerInd + 1)
       (shiftIn c bits (getBitReprRev b (sq ! (offset - 1)))) = Inr (rk', rs')"
    "rk = mk # rk'" "rs = ms # rs'"
  using assms
  by (subst (asm) revLoop.simps) (simp add: Let_def split: if_splits sum.splits prod.splits)

lemma revLoop_rows:
  "revLoop c b rf sq sK sS offset kmerInd bits = Inr (rk, rs) \<Longrightarrow>
     length rk = offset \<and> length rs = offset \<and>
     (\<forall>j<offset. kmerInd + j < length sK \<and> kmerInd + j < length sS \<and>
        length (rk ! j) = length (rs ! j) \<and>
        subseq (zip (rk ! j) (rs ! j)) (zip (sK ! (kmerInd + j)) (sS ! (kmerInd + j))))"
proof (induction offset arbitrary: kmerInd bits rk rs)
  case 0
  then show ?case by (simp add: revLoop_done)
next
  case (Suc m)
  have lt: "Suc m > 0" by simp
  from Suc.prems lt obtain mk ms rk' rs' where
    inb: "kmerInd < length sK" "kmerInd < length sS"
    and row: "matchRow b rf (shiftIn c bits (getBitReprRev b (sq ! (Suc m - 1))))
       (sK ! kmerInd) (sS ! kmerInd) = Inr (mk, ms)"
    and rest: "revLoop c b rf sq sK sS (Suc m - 1) (kmerInd + 1)
       (shiftIn c bits (getBitReprRev b (sq ! (Suc m - 1)))) = Inr (rk', rs')"
    and out: "rk = mk # rk'" "rs = ms # rs'"
    by (rule revLoop_Inr)
  from rest have rest': "revLoop c b rf sq sK sS m (kmerInd + 1)
       (shiftIn c bits (getBitReprRev b (sq ! (Suc m - 1)))) = Inr (rk', rs')" by simp
  note ih = Suc.IH [OF rest']
  have "kmerInd + j < length sK \<and> kmerInd + j < length sS \<and>
        length (rk ! j) = length (rs ! j) \<and>
        subseq (zip (rk ! j) (rs ! j)) (zip (sK ! (kmerInd + j)) (sS ! (kmerInd + j)))"
    if j: "j < Suc m" for j
  proof (cases j)
    case 0
    with matchRow_kept [OF row] inb show ?thesis by (simp add: out)
  next
    case (Suc j')
    with j have "j' < m" by simp
    with ih show ?thesis by (simp add: out Suc)
  qed
  with ih show ?case by (simp add: out)
qed

lemma padRows_kept:
  assumes len: "length rk = m" "length rs = m"
    and rows: "\<forall>j<m. j < length sK \<and> j < length sS \<and> length (rk ! j) = length (rs ! j) \<and>
        subseq (zip (rk ! j) (rs ! j)) (zip (sK ! j) (sS ! j))"
    and al: "alignedRows sK sS"
  shows "alignedRows (padRows (length sK) rk) (padRows (length sK) rs) \<and>
         keptFrom sK sS (padRows (length sK) rk) (padRows (length sK) rs)"
proof -
  from al have eq: "length sK = length sS"
    by (simp add: alignedRows_def list_all2_lengthD)
  have m: "m \<le> length sK"
  proof (cases m)
    case 0
    then show ?thesis by simp
  next
    case (Suc m')
    with rows have "m' < length sK" by simp
    with Suc show ?thesis by simp
  qed
  have lp: "length (padRows (length sK) rk) = length sK"
    "length (padRows (length sK) rs) = length sK"
    using len m by (simp_all add: padRows_def)
  have nth: "padRows (length sK) rk ! i = (if i < m then rk ! i else [])"
    "padRows (length sK) rs ! i = (if i < m then rs ! i else [])" if "i < length sK" for i
    using that len m by (simp_all add: padRows_def nth_append)
  show ?thesis
    unfolding alignedRows_def keptFrom_def
    using lp eq rows nth by (simp add: list_all2_conv_all_nth)
qed

subsection \<open>The example, evaluated\<close>

lemma ex_aligned: "alignedRows exSeedsK exSeedsS"
  by code_simp

lemma ex_filterHeuSeeds:
  "filterHeuSeeds exConst 0 exBatchQueue exSeedsK exSeedsS 3
     = Inr (exBatchQueue\<lparr>counts := [[2, 0], [7]]\<rparr>, exSeedsK, exSeedsS)"
  by code_simp

lemma ex_bitMatching:
  "bitMatching exConst exCodec exBatchQueue exRead exSeedsK exSeedsS
     = Inr (exBatchQueue, [[seedAt 0], []], [[True], []])"
  by code_simp

lemma ex_bitMatchingRev:
  "bitMatchingRev exConst exCodec exBatchQueue exReadRev exSeedsK exSeedsS
     = Inr (exBatchQueue, exSeedsK, exSeedsS)"
  by code_simp

lemma ex_matchReads:
  "matchReads exConst exCodec exSeeding (\<lambda>i. i mod 2) exBatchQueue 2
     = Inr (exBatchQueue\<lparr>counts := [[2, 0], [7]]\<rparr>,
            [((exSeedsK, exSeedsS), ([[], []], [[], []])), (([], []), ([], []))])"
  by code_simp

subsection \<open>C5: the two tables of an offset stay aligned\<close>

lemma filterHeuSeeds_kept:
  assumes "filterHeuSeeds c tid q sK sS n = Inr (q', fK, fS)" and "alignedRows sK sS"
  shows "alignedRows fK fS \<and> keptFrom sK sS fK fS"
proof -
  from assms(1) obtain tc where "filterAll tc (countCut c n) sK sS = Inr (fK, fS)"
    by (auto simp: filterHeuSeeds_def split: if_splits sum.splits)
  from filterAll_kept [OF this assms(2)] show ?thesis .
qed

lemma bitMatching_kept:
  assumes "bitMatching c b q r sK sS = Inr (q', mK, mS)" and "alignedRows sK sS"
  shows "alignedRows mK mS \<and> keptFrom sK sS mK mS"
proof -
  from assms(1) obtain bits rk rs where
    loop: "fwdLoop c b (ref q) (seq r) sK sS (length (seq r) + 1 - KMERLEN c) 0 bits
             = Inr (rk, rs)"
    and out: "mK = padRows (length sK) rk" "mS = padRows (length sK) rs"
    by (auto simp: bitMatching_def split: sum.splits)
  from fwdLoop_rows [OF loop] padRows_kept [of rk _ rs sK sS] assms(2) show ?thesis
    by (simp add: out)
qed

lemma bitMatchingRev_kept:
  assumes "bitMatchingRev c b q r sK sS = Inr (q', mK, mS)" and "alignedRows sK sS"
  shows "alignedRows mK mS \<and> keptFrom sK sS mK mS"
proof -
  from assms(1) obtain bits rk rs where
    loop: "revLoop c b (ref q) (seq r) sK sS
       (u32sub (length (seq r) mod 2 ^ 32) (KMERLEN c)) 0 bits = Inr (rk, rs)"
    and out: "mK = padRows (length sK) rk" "mS = padRows (length sK) rs"
    by (auto simp: bitMatchingRev_def Let_def split: sum.splits)
  from revLoop_rows [OF loop] padRows_kept [of rk _ rs sK sS] assms(2) show ?thesis
    by (simp add: out)
qed

text \<open>
  Claim C5.  When the two tables handed to a stage are aligned (one row of strand flags
  per row of seeds, and as many flags as seeds in every row, which is what the seeding
  has to deliver), then the tables after \<^verbatim>\<open>filterHeuSeeds\<close>, after
  \<^verbatim>\<open>bitMatching\<close> and after \<^verbatim>\<open>bitMatchingRev\<close> are aligned again, and row
  by row the pairs (seed, flag) that remain are a subsequence of the pairs that went
  in: the flag at an index is the flag of the seed at that index.
\<close>

theorem seed_tables_stay_aligned:
  assumes "alignedRows sK sS"
  shows "(filterHeuSeeds c tid q sK sS n = Inr (q1, fK, fS) \<longrightarrow>
            alignedRows fK fS \<and> keptFrom sK sS fK fS) \<and>
         (bitMatching c b q r sK sS = Inr (q2, mK, mS) \<longrightarrow>
            alignedRows mK mS \<and> keptFrom sK sS mK mS) \<and>
         (bitMatchingRev c b q r' sK sS = Inr (q3, vK, vS) \<longrightarrow>
            alignedRows vK vS \<and> keptFrom sK sS vK vS)"
proof (intro conjI impI)
  assume "filterHeuSeeds c tid q sK sS n = Inr (q1, fK, fS)"
  from filterHeuSeeds_kept [OF this assms]
  show "alignedRows fK fS" and "keptFrom sK sS fK fS" by simp_all
next
  assume "bitMatching c b q r sK sS = Inr (q2, mK, mS)"
  from bitMatching_kept [OF this assms]
  show "alignedRows mK mS" and "keptFrom sK sS mK mS" by simp_all
next
  assume "bitMatchingRev c b q r' sK sS = Inr (q3, vK, vS)"
  from bitMatchingRev_kept [OF this assms]
  show "alignedRows vK vS" and "keptFrom sK sS vK vS" by simp_all
qed

theorem seed_tables_stay_aligned_witness:
  "alignedRows exSeedsK exSeedsS \<and>
   filterHeuSeeds exConst 0 exBatchQueue exSeedsK exSeedsS 3
     = Inr (exBatchQueue\<lparr>counts := [[2, 0], [7]]\<rparr>, exSeedsK, exSeedsS) \<and>
   bitMatching exConst exCodec exBatchQueue exRead exSeedsK exSeedsS
     = Inr (exBatchQueue, [[seedAt 0], []], [[True], []]) \<and>
   bitMatchingRev exConst exCodec exBatchQueue exReadRev exSeedsK exSeedsS
     = Inr (exBatchQueue, exSeedsK, exSeedsS) \<and>
   alignedRows [[seedAt 0], []] [[True], []] \<and>
   keptFrom exSeedsK exSeedsS [[seedAt 0], []] [[True], []] \<and>
   keptFrom exSeedsK exSeedsS exSeedsK exSeedsS"
proof -
  have "alignedRows [[seedAt 0], []] [[True], []] \<and>
    keptFrom exSeedsK exSeedsS [[seedAt 0], []] [[True], []] \<and>
    keptFrom exSeedsK exSeedsS exSeedsK exSeedsS"
    using seed_tables_stay_aligned [OF ex_aligned, where c = exConst and tid = 0
      and q = exBatchQueue and n = 3 and fK = exSeedsK and fS = exSeedsS and b = exCodec
      and r = exRead and ?q2.0 = exBatchQueue and mK = "[[seedAt 0], []]"
      and mS = "[[True], []]" and r' = exReadRev and ?q3.0 = exBatchQueue
      and vK = exSeedsK and vS = exSeedsS
      and ?q1.0 = "exBatchQueue\<lparr>counts := [[2, 0], [7]]\<rparr>"]
      ex_filterHeuSeeds ex_bitMatching ex_bitMatchingRev
    by blast
  with ex_aligned ex_filterHeuSeeds ex_bitMatching ex_bitMatchingRev show ?thesis
    by blast
qed

subsection \<open>C6: matching leaves the index as it was\<close>

lemma filterHeuSeeds_ref:
  "filterHeuSeeds c tid q sK sS n = Inr (q', fK, fS) \<Longrightarrow> ref q' = ref q"
  by (auto simp: filterHeuSeeds_def split: if_splits sum.splits)

lemma bitMatching_state:
  "bitMatching c b q r sK sS = Inr (q', mK, mS) \<Longrightarrow> q' = q"
  by (auto simp: bitMatching_def split: sum.splits)

lemma bitMatchingRev_state:
  "bitMatchingRev c b q r sK sS = Inr (q', mK, mS) \<Longrightarrow> q' = q"
  by (auto simp: bitMatchingRev_def Let_def split: sum.splits)

lemma matchRead_ref:
  assumes "matchRead c b sd tid q r = Inr (q', res)"
  shows "ref q' = ref q"
proof (cases "length (seq r) < KMERLEN c")
  case True
  with assms show ?thesis by (simp add: matchRead_def)
next
  case False
  with assms obtain fK fS q1 fK1 fS1 q2 fK2 fS2 rK rS q3 rK1 rS1 rK2 rS2 where
    "filterHeuSeeds c tid q fK fS (of_nat (length (seq r))) = Inr (q1, fK1, fS1)"
    "bitMatching c b q1 r fK1 fS1 = Inr (q2, fK2, fS2)"
    "filterHeuSeeds c tid q2 rK rS (of_nat (length (seq r))) = Inr (q3, rK1, rS1)"
    "bitMatchingRev c b q3 r rK1 rS1 = Inr (q', rK2, rS2)"
    by (auto simp: matchRead_def split: prod.splits sum.splits)
  then show ?thesis
    by (auto dest!: filterHeuSeeds_ref bitMatching_state bitMatchingRev_state)
qed

lemma matchAll_ref:
  "matchAll c b sd q batch = Inr (q', ress) \<Longrightarrow> ref q' = ref q"
proof (induction batch arbitrary: q q' ress)
  case Nil
  then show ?case by simp
next
  case (Cons x batch)
  obtain tid r where x: "x = (tid, r)" by (cases x)
  from Cons.prems obtain q1 res ress' where
    one: "matchRead c b sd tid q r = Inr (q1, res)"
    and rest: "matchAll c b sd q1 batch = Inr (q', ress')"
    by (auto simp: x split: sum.splits)
  from Cons.IH [OF rest] matchRead_ref [OF one] show ?case by simp
qed

text \<open>
  Claim C6.  The state of the \<^verbatim>\<open>ReadQueue\<close> object that \<^verbatim>\<open>filterHeuSeeds\<close>,
  \<^verbatim>\<open>bitMatching\<close> and \<^verbatim>\<open>bitMatchingRev\<close> leave behind holds the same
  \<^verbatim>\<open>RefGenome\<close> as before, field by field (\<open>tabIndex\<close>, \<open>kmerTable\<close>,
  \<open>strandTable\<close>, \<open>metaCpGs\<close>, \<open>metaStartCpGs\<close>, \<open>cpgTable\<close>, \<open>cpgStartTable\<close>,
  \<open>genomeBit\<close>, \<open>filteredKmers\<close>); so does a whole batch run by \<^verbatim>\<open>matchReads\<close>,
  which is composed of these steps and of a seeding that only reads the index.
\<close>

theorem matching_never_writes_index:
  "(filterHeuSeeds c tid q sK sS n = Inr (q1, fK, fS) \<longrightarrow> ref q1 = ref q) \<and>
   (bitMatching c b q r sK sS = Inr (q2, mK, mS) \<longrightarrow> ref q2 = ref q) \<and>
   (bitMatchingRev c b q r' sK sS = Inr (q3, vK, vS) \<longrightarrow> ref q3 = ref q) \<and>
   (matchReads c b sd worker q procReads = Inr (q4, ress) \<longrightarrow> ref q4 = ref q)"
  by (auto simp: matchReads_def dest: filterHeuSeeds_ref bitMatching_state bitMatchingRev_state
      matchAll_ref split: if_splits)

theorem matching_never_writes_index_witness:
  "filterHeuSeeds exConst 0 exBatchQueue exSeedsK exSeedsS 3
     = Inr (exBatchQueue\<lparr>counts := [[2, 0], [7]]\<rparr>, exSeedsK, exSeedsS) \<and>
   bitMatching exConst exCodec exBatchQueue exRead exSeedsK exSeedsS
     = Inr (exBatchQueue, [[seedAt 0], []], [[True], []]) \<and>
   bitMatchingRev exConst exCodec exBatchQueue exReadRev exSeedsK exSeedsS
     = Inr (exBatchQueue, exSeedsK, exSeedsS) \<and>
   matchReads exConst exCodec exSeeding (\<lambda>i. i mod 2) exBatchQueue 2
     = Inr (exBatchQueue\<lparr>counts := [[2, 0], [7]]\<rparr>,
            [((exSeedsK, exSeedsS), ([[], []], [[], []])), (([], []), ([], []))]) \<and>
   ref (exBatchQueue\<lparr>counts := [[2, 0], [7]]\<rparr>) = ref exBatchQueue"
proof -
  have "ref (exBatchQueue\<lparr>counts := [[2, 0], [7]]\<rparr>) = ref exBatchQueue"
    using matching_never_writes_index [where c = exConst and tid = 0 and q = exBatchQueue
      and sK = exSeedsK and sS = exSeedsS and n = 3
      and ?q1.0 = "exBatchQueue\<lparr>counts := [[2, 0], [7]]\<rparr>" and fK = exSeedsK
      and fS = exSeedsS and b = exCodec and r = exRead and ?q2.0 = exBatchQueue
      and mK = "[[seedAt 0], []]" and mS = "[[True], []]" and r' = exReadRev
      and ?q3.0 = exBatchQueue and vK = exSeedsK and vS = exSeedsS and sd = exSeeding
      and worker = "\<lambda>i. i mod 2" and procReads = 2
      and ?q4.0 = "exBatchQueue\<lparr>counts := [[2, 0], [7]]\<rparr>"
      and ress = "[((exSeedsK, exSeedsS), ([[], []], [[], []])), (([], []), ([], []))]"]
      ex_matchReads
    by blast
  with ex_filterHeuSeeds ex_bitMatching ex_bitMatchingRev ex_matchReads show ?thesis
    by blast
qed

subsection \<open>The sliding register of bitMatching\<close>

declare fwdRegs.simps [simp del] revRegs.simps [simp del]

lemma signiBits_mask: "KMERLEN c \<le> 32 \<Longrightarrow> signiBits c = mask (2 * KMERLEN c)"
  unfolding signiBits_def
  by (rule bit_word_eqI) (auto simp: bit_simps)

lemma push_or_mask_cong:
  fixes x y z :: "64 word"
  assumes "x AND mask n = y AND mask n"
  shows "(push_bit 2 x OR z) AND mask (n + 2) = (push_bit 2 y OR z) AND mask (n + 2)"
proof (rule bit_word_eqI)
  fix i assume "i < LENGTH(64)"
  have eq: "bit x k = bit y k" if "k < n" for k
  proof -
    from assms have "bit (x AND mask n) k = bit (y AND mask n) k" by simp
    with that show ?thesis by (auto simp: bit_simps dest: bit_imp_le_length)
  qed
  show "bit ((push_bit 2 x OR z) AND mask (n + 2)) i = bit ((push_bit 2 y OR z) AND mask (n + 2)) i"
  proof (cases "2 \<le> i \<and> i < n + 2")
    case True
    then have "i - 2 < n" by arith
    from eq [OF this] True show ?thesis by (simp add: bit_simps)
  next
    case False
    then show ?thesis by (auto simp: bit_simps)
  qed
qed

lemma push_or_mask_absorb:
  fixes x z :: "64 word"
  shows "(push_bit 2 (x AND mask n) OR z) AND mask n = (push_bit 2 x OR z) AND mask n"
  by (rule bit_word_eqI) (auto simp: bit_simps)

lemma packKmer_snoc:
  "packKmer code (w @ [ch]) = push_bit 2 (packKmer code w) OR code ch"
  by (simp add: packKmer_def)

lemma foldl_pack_mask:
  fixes a :: "64 word"
  shows "foldl (\<lambda>bits ch. push_bit 2 bits OR code ch) a w AND mask (2 * length w)
       = packKmer code w AND mask (2 * length w)"
proof (induction w rule: rev_induct)
  case Nil
  show ?case by (simp add: packKmer_def)
next
  case (snoc ch w)
  from push_or_mask_cong [OF snoc.IH, of "code ch"] show ?case
    by (simp add: packKmer_def)
qed

lemma packKmer_window:
  "packKmer code (v @ w) AND mask (2 * length w) = packKmer code w AND mask (2 * length w)"
  using foldl_pack_mask [of code "packKmer code v" w] by (simp add: packKmer_def)

lemma fwdInit_pack:
  "n \<le> length sq \<Longrightarrow> i \<le> n \<Longrightarrow>
   fwdInit b sq n i bits
     = Inr (foldl (\<lambda>bits ch. push_bit 2 bits OR getBitRepr b ch) bits (take (n - i) (drop i sq)))"
proof (induction "n - i" arbitrary: i bits)
  case 0
  then show ?case by (subst fwdInit.simps) simp
next
  case (Suc m)
  then have lt: "i < n" "i < length sq" and m: "m = n - (i + 1)" by simp_all
  from lt Suc.prems have d: "take (n - i) (drop i sq) = sq ! i # take (n - (i + 1)) (drop (i + 1) sq)"
    by (metis Cons_nth_drop_Suc Suc.hyps(2) Suc_eq_plus1 m take_Suc_Cons)
  from Suc.hyps(1) [OF m Suc.prems(1), of "push_bit 2 bits OR getBitRepr b (sq ! i)"] lt
  show ?case by (subst fwdInit.simps) (simp add: d)
qed

lemma fwdInit_packKmer:
  "n \<le> length sq \<Longrightarrow> fwdInit b sq n 0 0 = Inr (packKmer (getBitRepr b) (take n sq))"
  by (simp add: fwdInit_pack packKmer_def)

lemma fwdInit_short: "length sq < n \<Longrightarrow> i \<le> length sq \<Longrightarrow> fwdInit b sq n i bits = Inl OutOfBounds"
proof (induction "length sq - i" arbitrary: i bits)
  case 0
  then show ?case by (subst fwdInit.simps) simp
next
  case (Suc m)
  then have lt: "i < length sq" and m: "m = length sq - (i + 1)" by simp_all
  from Suc.hyps(1) [OF m Suc.prems(1), of "push_bit 2 bits OR getBitRepr b (sq ! i)"] lt Suc.prems
  show ?case by (subst fwdInit.simps) simp
qed


lemma push_or_mask_cong':
  fixes x y z :: "64 word"
  assumes "x AND mask n = y AND mask n"
  shows "(push_bit 2 x OR z) AND mask n = (push_bit 2 y OR z) AND mask n"
proof -
  have "(push_bit 2 x OR z) AND mask n = (push_bit 2 (x AND mask n) OR z) AND mask n"
    by (rule push_or_mask_absorb [symmetric])
  also have "\<dots> = (push_bit 2 (y AND mask n) OR z) AND mask n"
    by (simp only: assms)
  also have "\<dots> = (push_bit 2 y OR z) AND mask n"
    by (rule push_or_mask_absorb)
  finally show ?thesis .
qed

lemma kmerBitsAt_prefix:
  assumes K: "KMERLEN c \<le> 32" and inb: "offset + KMERLEN c \<le> length sq"
  shows "packKmer (getBitRepr b) (take (offset + KMERLEN c) sq) AND signiBits c
       = kmerBitsAt c b sq offset"
proof -
  have t: "take (offset + KMERLEN c) sq = take offset sq @ take (KMERLEN c) (drop offset sq)"
    by (simp add: take_add)
  have l: "length (take (KMERLEN c) (drop offset sq)) = KMERLEN c"
    using inb by simp
  from packKmer_window [of "getBitRepr b" "take offset sq" "take (KMERLEN c) (drop offset sq)"]
  show ?thesis
    unfolding kmerBitsAt_def signiBits_mask [OF K] t l .
qed

lemma shiftIn_next:
  assumes K: "0 < KMERLEN c" "KMERLEN c \<le> 32" and inb: "offset + KMERLEN c \<le> length sq"
    and inv: "bits AND signiBits c
            = packKmer (getBitRepr b) (take (offset + KMERLEN c - 1) sq) AND signiBits c"
  shows "shiftIn c bits (getBitRepr b (sq ! (offset + KMERLEN c - 1))) = kmerBitsAt c b sq offset"
proof -
  define j where "j = offset + KMERLEN c - 1"
  from K inb have j: "j < length sq" and sj: "Suc j = offset + KMERLEN c"
    by (simp_all add: j_def)
  from inv have inv': "bits AND mask (2 * KMERLEN c)
      = packKmer (getBitRepr b) (take j sq) AND mask (2 * KMERLEN c)"
    by (simp only: signiBits_mask [OF K(2)] j_def)
  have "shiftIn c bits (getBitRepr b (sq ! j))
      = (push_bit 2 bits OR getBitRepr b (sq ! j)) AND mask (2 * KMERLEN c)"
    by (simp only: shiftIn_def signiBits_mask [OF K(2)])
  also have "\<dots> = (push_bit 2 (packKmer (getBitRepr b) (take j sq)) OR getBitRepr b (sq ! j))
          AND mask (2 * KMERLEN c)"
    by (rule push_or_mask_cong' [OF inv'])
  also have "\<dots> = packKmer (getBitRepr b) (take (Suc j) sq) AND signiBits c"
    using j by (simp only: take_Suc_conv_app_nth packKmer_snoc signiBits_mask [OF K(2)])
  also have "\<dots> = kmerBitsAt c b sq offset"
    unfolding sj by (rule kmerBitsAt_prefix [OF K(2) inb])
  finally show ?thesis by (simp only: j_def)
qed

lemma kmerBitsAt_idem: "kmerBitsAt c b sq offset AND signiBits c = kmerBitsAt c b sq offset"
  by (simp add: kmerBitsAt_def and.assoc)

lemma fwdRegs_done: "\<not> offset < n \<Longrightarrow> fwdRegs c b sq n offset bits = []"
  by (subst fwdRegs.simps) simp

lemma fwdRegs_step:
  "offset < n \<Longrightarrow> offset + KMERLEN c - 1 < length sq \<Longrightarrow> fwdRegs c b sq n offset bits
     = shiftIn c bits (getBitRepr b (sq ! (offset + KMERLEN c - 1)))
       # fwdRegs c b sq n (offset + 1) (shiftIn c bits (getBitRepr b (sq ! (offset + KMERLEN c - 1))))"
  by (subst fwdRegs.simps) (simp add: Let_def)

lemma fwdRegs_recomputed:
  assumes K: "0 < KMERLEN c" "KMERLEN c \<le> 32"
  shows "n + KMERLEN c - 1 \<le> length sq \<Longrightarrow>
    bits AND signiBits c
      = packKmer (getBitRepr b) (take (offset + KMERLEN c - 1) sq) AND signiBits c \<Longrightarrow>
    fwdRegs c b sq n offset bits = map (kmerBitsAt c b sq) [offset..<n]"
proof (induction "n - offset" arbitrary: offset bits)
  case 0
  then show ?case by (simp add: fwdRegs_done)
next
  case (Suc m)
  then have lt: "offset < n" and m: "m = n - (offset + 1)" by simp_all
  from lt Suc.prems(1) have inb: "offset + KMERLEN c \<le> length sq" by simp
  define bits' where "bits' = shiftIn c bits (getBitRepr b (sq ! (offset + KMERLEN c - 1)))"
  have b': "bits' = kmerBitsAt c b sq offset"
    unfolding bits'_def by (rule shiftIn_next [OF K inb Suc.prems(2)])
  from K have e: "offset + 1 + KMERLEN c - 1 = offset + KMERLEN c" by simp
  have inv': "bits' AND signiBits c
            = packKmer (getBitRepr b) (take (offset + 1 + KMERLEN c - 1) sq) AND signiBits c"
    unfolding e b' kmerBitsAt_idem by (rule kmerBitsAt_prefix [OF K(2) inb, symmetric])
  from K inb have inb': "offset + KMERLEN c - 1 < length sq" by simp
  have "fwdRegs c b sq n offset bits = bits' # fwdRegs c b sq n (offset + 1) bits'"
    unfolding bits'_def by (rule fwdRegs_step [OF lt inb'])
  also have "\<dots> = kmerBitsAt c b sq offset # map (kmerBitsAt c b sq) [offset + 1..<n]"
    using Suc.hyps(1) [OF m Suc.prems(1) inv'] by (simp only: b')
  also have "\<dots> = map (kmerBitsAt c b sq) [offset..<n]"
    using lt by (simp add: upt_conv_Cons)
  finally show ?case .
qed

lemma kmerBitsTrace_recomputed:
  assumes K: "0 < KMERLEN c" "KMERLEN c \<le> 32" and L: "KMERLEN c \<le> length sq"
  shows "kmerBitsTrace c b sq = map (kmerBitsAt c b sq) [0..<length sq + 1 - KMERLEN c]"
proof -
  from L have i: "fwdInit b sq (KMERLEN c - 1) 0 0
      = Inr (packKmer (getBitRepr b) (take (KMERLEN c - 1) sq))"
    by (intro fwdInit_packKmer) simp
  from K L have n: "length sq + 1 - KMERLEN c + KMERLEN c - 1 \<le> length sq" by simp
  have inv: "packKmer (getBitRepr b) (take (KMERLEN c - 1) sq) AND signiBits c
     = packKmer (getBitRepr b) (take (0 + KMERLEN c - 1) sq) AND signiBits c" by simp
  have "kmerBitsTrace c b sq = fwdRegs c b sq (length sq + 1 - KMERLEN c) 0
      (packKmer (getBitRepr b) (take (KMERLEN c - 1) sq))"
    unfolding kmerBitsTrace_def i by simp
  also note fwdRegs_recomputed [OF K n inv]
  finally show ?thesis .
qed

lemma matchRow_filter:
  "matchRow b rf bits ks ss = Inr (mk, ms) \<Longrightarrow>
     zip mk ms = filter (survives b rf bits) (zip ks ss)"
proof (induction ks arbitrary: ss mk ms)
  case Nil
  then show ?case by simp
next
  case (Cons k ks)
  from Cons.prems obtain s ss' x mk' ms' where
    ss: "ss = s # ss'" and f: "fetchRefKmerBit rf k s = Inr x"
    and r: "matchRow b rf bits ks ss' = Inr (mk', ms')"
    and out: "(mk, ms) = (if bitMatch b x bits then (k # mk', s # ms') else (mk', ms'))"
    by (auto split: list.splits sum.splits if_splits)
  from Cons.IH [OF r] out f show ?case
    by (auto simp: ss survives_def bitMatch_def split: if_splits)
qed

lemma fwdLoop_regs:
  "fwdLoop c b rf sq sK sS n offset bits = Inr (rk, rs) \<Longrightarrow>
     (\<forall>j<n - offset.
        matchRow b rf (fwdRegs c b sq n offset bits ! j) (sK ! (offset + j)) (sS ! (offset + j))
          = Inr (rk ! j, rs ! j))"
proof (induction "n - offset" arbitrary: offset bits rk rs)
  case 0
  then show ?case by simp
next
  case (Suc m)
  from Suc.hyps(2) have lt: "offset < n" by simp
  define bits' where "bits' = shiftIn c bits (getBitRepr b (sq ! (offset + KMERLEN c - 1)))"
  from Suc.prems lt obtain mk ms rk' rs' where
    inb: "offset + KMERLEN c - 1 < length sq"
    and row: "matchRow b rf bits' (sK ! offset) (sS ! offset) = Inr (mk, ms)"
    and rest: "fwdLoop c b rf sq sK sS n (offset + 1) bits' = Inr (rk', rs')"
    and out: "rk = mk # rk'" "rs = ms # rs'"
    unfolding bits'_def by (rule fwdLoop_Inr)
  from Suc.hyps(2) have m: "m = n - (offset + 1)" by simp
  note ih = Suc.hyps(1) [OF m rest]
  have regs: "fwdRegs c b sq n offset bits = bits' # fwdRegs c b sq n (offset + 1) bits'"
    unfolding bits'_def by (rule fwdRegs_step [OF lt inb])
  show ?case
  proof (intro allI impI)
    fix j assume j: "j < n - offset"
    show "matchRow b rf (fwdRegs c b sq n offset bits ! j) (sK ! (offset + j)) (sS ! (offset + j))
          = Inr (rk ! j, rs ! j)"
    proof (cases j)
      case 0
      with row show ?thesis by (simp add: regs out)
    next
      case (Suc j')
      with j have "j' < n - (offset + 1)" by simp
      with ih show ?thesis by (simp add: regs out Suc)
    qed
  qed
qed

lemma bitMatching_survivors:
  assumes K: "0 < KMERLEN c" "KMERLEN c \<le> 32" and L: "KMERLEN c \<le> length (seq r)"
    and run: "bitMatching c b q r sK sS = Inr (q', mK, mS)"
    and off: "offset \<le> length (seq r) - KMERLEN c"
  shows "zip (mK ! offset) (mS ! offset)
       = filter (survives b (ref q) (kmerBitsAt c b (seq r) offset))
           (zip (sK ! offset) (sS ! offset))"
proof -
  define n where "n = length (seq r) + 1 - KMERLEN c"
  from L have i: "fwdInit b (seq r) (KMERLEN c - 1) 0 0
      = Inr (packKmer (getBitRepr b) (take (KMERLEN c - 1) (seq r)))"
    by (intro fwdInit_packKmer) simp
  define bits where "bits = packKmer (getBitRepr b) (take (KMERLEN c - 1) (seq r))"
  from run have "(case fwdLoop c b (ref q) (seq r) sK sS n 0 bits of
        Inl e \<Rightarrow> Inl e
      | Inr (rk, rs) \<Rightarrow> Inr (q, padRows (length sK) rk, padRows (length sK) rs))
      = Inr (q', mK, mS)"
    unfolding bitMatching_def i n_def bits_def by simp
  then obtain rk rs where
    loop: "fwdLoop c b (ref q) (seq r) sK sS n 0 bits = Inr (rk, rs)"
    and out: "mK = padRows (length sK) rk" "mS = padRows (length sK) rs"
    by (auto split: sum.splits)
  from off L have o: "offset < n" by (simp add: n_def)
  from fwdLoop_rows [OF loop] have len: "length rk = n" "length rs = n" by simp_all
  from K L have nb: "n + KMERLEN c - 1 \<le> length (seq r)" by (simp add: n_def)
  have inv: "bits AND signiBits c
     = packKmer (getBitRepr b) (take (0 + KMERLEN c - 1) (seq r)) AND signiBits c"
    by (simp add: bits_def)
  have regs: "fwdRegs c b (seq r) n 0 bits = map (kmerBitsAt c b (seq r)) [0..<n]"
    by (rule fwdRegs_recomputed [OF K nb inv])
  from fwdLoop_regs [OF loop] o
  have "matchRow b (ref q) (kmerBitsAt c b (seq r) offset) (sK ! offset) (sS ! offset)
      = Inr (rk ! offset, rs ! offset)"
    by (simp add: regs)
  from matchRow_filter [OF this] o len show ?thesis
    by (simp add: out padRows_def nth_append)
qed

lemma bitMatching_survives_iff:
  assumes "0 < KMERLEN c" and "KMERLEN c \<le> 32" and "KMERLEN c \<le> length (seq r)"
    and "bitMatching c b q r sK sS = Inr (q', mK, mS)"
    and "offset \<le> length (seq r) - KMERLEN c"
  shows "seed \<in> set (zip (mK ! offset) (mS ! offset)) \<longleftrightarrow>
         seed \<in> set (zip (sK ! offset) (sS ! offset)) \<and>
         survives b (ref q) (kmerBitsAt c b (seq r) offset) seed"
  using bitMatching_survivors [OF assms] by auto

lemma bitMatch_rejects:
  assumes "bit (getMask b refKmerBit) i" and "bit refKmerBit i \<noteq> bit kmerBits i"
  shows "\<not> bitMatch b refKmerBit kmerBits"
proof
  assume "bitMatch b refKmerBit kmerBits"
  then have "bit (refKmerBit XOR (kmerBits AND getMask b refKmerBit)) i = bit (0 :: 64 word) i"
    by (simp add: bitMatch_def)
  with assms show False by (simp add: bit_simps)
qed

subsection \<open>The loops of bitMatchingRev\<close>

lemma u32sub_simple:
  assumes "b \<le> a" and "a < 2 ^ 32"
  shows "u32sub a b = a - b"
proof -
  from assms have b: "b mod 2 ^ 32 = b" by simp
  from assms have e: "a + 2 ^ 32 - b = (a - b) + 2 ^ 32" by arith
  from assms have l: "a - b < 2 ^ 32" by arith
  have "u32sub a b = ((a - b) + 2 ^ 32) mod 2 ^ 32"
    unfolding u32sub_def b e ..
  also have "\<dots> = a - b" using l by simp
  finally show ?thesis .
qed

lemma u32sub_wrap: "a < b \<Longrightarrow> b < 2 ^ 32 \<Longrightarrow> u32sub a b = a + 2 ^ 32 - b"
  by (simp add: u32sub_def)

lemma revInit_Inr: "i < length sq \<Longrightarrow> \<exists>bits'. revInit b sq lim i bits = Inr bits'"
proof (induction i arbitrary: bits)
  case 0
  then show ?case by (subst revInit.simps) simp
next
  case (Suc i)
  then have "i < length sq" by simp
  from Suc.IH [OF this, of "push_bit 2 bits OR getBitReprRev b (sq ! Suc i)"] Suc.prems
  show ?case by (subst revInit.simps) simp
qed

lemma revInit_none: "\<not> i > lim \<Longrightarrow> revInit b sq lim i bits = Inr bits"
  by (subst revInit.simps) simp

lemma revInit_oob: "i > lim \<Longrightarrow> \<not> i < length sq \<Longrightarrow> revInit b sq lim i bits = Inl OutOfBounds"
  by (subst revInit.simps) simp

lemma revRegs_done: "\<not> offset > 0 \<Longrightarrow> revRegs c b sq offset bits = []"
  by (subst revRegs.simps) simp

lemma revRegs_step:
  "offset > 0 \<Longrightarrow> offset - 1 < length sq \<Longrightarrow> revRegs c b sq offset bits
     = shiftIn c bits (getBitReprRev b (sq ! (offset - 1)))
       # revRegs c b sq (offset - 1) (shiftIn c bits (getBitReprRev b (sq ! (offset - 1))))"
  by (subst revRegs.simps) (simp add: Let_def)

lemma length_revRegs: "offset \<le> length sq \<Longrightarrow> length (revRegs c b sq offset bits) = offset"
proof (induction offset arbitrary: bits)
  case 0
  show ?case by (simp add: revRegs_done)
next
  case (Suc m)
  then show ?case by (simp add: revRegs_step)
qed

lemma revLoop_regs:
  "revLoop c b rf sq sK sS offset kmerInd bits = Inr (rk, rs) \<Longrightarrow>
     (\<forall>j<offset.
        matchRow b rf (revRegs c b sq offset bits ! j) (sK ! (kmerInd + j)) (sS ! (kmerInd + j))
          = Inr (rk ! j, rs ! j))"
proof (induction offset arbitrary: kmerInd bits rk rs)
  case 0
  then show ?case by simp
next
  case (Suc m)
  have lt: "Suc m > 0" by simp
  define bits' where "bits' = shiftIn c bits (getBitReprRev b (sq ! (Suc m - 1)))"
  from Suc.prems lt obtain mk ms rk' rs' where
    inb: "Suc m - 1 < length sq"
    and row: "matchRow b rf bits' (sK ! kmerInd) (sS ! kmerInd) = Inr (mk, ms)"
    and rest: "revLoop c b rf sq sK sS (Suc m - 1) (kmerInd + 1) bits' = Inr (rk', rs')"
    and out: "rk = mk # rk'" "rs = ms # rs'"
    unfolding bits'_def by (rule revLoop_Inr)
  from rest have rest': "revLoop c b rf sq sK sS m (kmerInd + 1) bits' = Inr (rk', rs')"
    by simp
  note ih = Suc.IH [OF rest']
  have regs: "revRegs c b sq (Suc m) bits = bits' # revRegs c b sq m bits'"
    unfolding bits'_def using revRegs_step [OF lt inb, of c b bits] by simp
  show ?case
  proof (intro allI impI)
    fix j assume j: "j < Suc m"
    show "matchRow b rf (revRegs c b sq (Suc m) bits ! j) (sK ! (kmerInd + j)) (sS ! (kmerInd + j))
          = Inr (rk ! j, rs ! j)"
    proof (cases j)
      case 0
      with row show ?thesis by (simp add: regs out)
    next
      case (Suc j')
      with j have "j' < m" by simp
      with ih show ?thesis by (simp add: regs out Suc)
    qed
  qed
qed

lemma kmerBitsRevTrace_length:
  assumes K: "0 < KMERLEN c" and L: "KMERLEN c \<le> length sq" "length sq < 2 ^ 32"
  shows "length (kmerBitsRevTrace c b sq) = length sq - KMERLEN c"
proof -
  from L have rs: "length sq mod 2 ^ 32 = length sq" by simp
  from K L have s: "u32sub (length sq) (KMERLEN c) = length sq - KMERLEN c"
    "u32sub (length sq) 1 = length sq - 1"
    by (simp_all add: u32sub_simple)
  from K L have "length sq - 1 < length sq" by simp
  from revInit_Inr [OF this, of b "length sq - KMERLEN c" 0] obtain bits where
    i: "revInit b sq (length sq - KMERLEN c) (length sq - 1) 0 = Inr bits" by blast
  show ?thesis
    unfolding kmerBitsRevTrace_def Let_def rs s i by (simp add: length_revRegs)
qed

lemma bitMatchingRev_rows:
  assumes K: "0 < KMERLEN c" and L: "KMERLEN c \<le> length (seq r)" "length (seq r) < 2 ^ 32"
    and run: "bitMatchingRev c b q r sK sS = Inr (q', vK, vS)"
  shows "\<forall>j<length (seq r) - KMERLEN c.
           zip (vK ! j) (vS ! j)
             = filter (survives b (ref q) (kmerBitsRevTrace c b (seq r) ! j))
                 (zip (sK ! j) (sS ! j))"
    and "length (seq r) - KMERLEN c < length sK \<longrightarrow>
           vK ! (length (seq r) - KMERLEN c) = [] \<and> vS ! (length (seq r) - KMERLEN c) = []"
proof -
  define n where "n = length (seq r) - KMERLEN c"
  from L have rs: "length (seq r) mod 2 ^ 32 = length (seq r)" by simp
  from K L have s: "u32sub (length (seq r)) (KMERLEN c) = n"
    "u32sub (length (seq r)) 1 = length (seq r) - 1"
    by (simp_all add: u32sub_simple n_def)
  from K L have "length (seq r) - 1 < length (seq r)" by simp
  from revInit_Inr [OF this, of b n 0] obtain bits where
    i: "revInit b (seq r) n (length (seq r) - 1) 0 = Inr bits" by blast
  have tr: "kmerBitsRevTrace c b (seq r) = revRegs c b (seq r) n bits"
    unfolding kmerBitsRevTrace_def Let_def rs s i by simp
  from run have "(case revLoop c b (ref q) (seq r) sK sS n 0 bits of
        Inl e \<Rightarrow> Inl e
      | Inr (rk, rs) \<Rightarrow> Inr (q, padRows (length sK) rk, padRows (length sK) rs))
      = Inr (q', vK, vS)"
    unfolding bitMatchingRev_def Let_def rs s i by simp
  then obtain rk rs where
    loop: "revLoop c b (ref q) (seq r) sK sS n 0 bits = Inr (rk, rs)"
    and out: "vK = padRows (length sK) rk" "vS = padRows (length sK) rs"
    by (auto split: sum.splits)
  from revLoop_rows [OF loop] have len: "length rk = n" "length rs = n" by simp_all
  show "\<forall>j<length (seq r) - KMERLEN c.
           zip (vK ! j) (vS ! j)
             = filter (survives b (ref q) (kmerBitsRevTrace c b (seq r) ! j))
                 (zip (sK ! j) (sS ! j))"
  proof (intro allI impI)
    fix j assume "j < length (seq r) - KMERLEN c"
    then have j: "j < n" by (simp add: n_def)
    with revLoop_regs [OF loop]
    have "matchRow b (ref q) (revRegs c b (seq r) n bits ! j) (sK ! j) (sS ! j)
        = Inr (rk ! j, rs ! j)" by simp
    from matchRow_filter [OF this] j len show "zip (vK ! j) (vS ! j)
             = filter (survives b (ref q) (kmerBitsRevTrace c b (seq r) ! j))
                 (zip (sK ! j) (sS ! j))"
      by (simp add: out padRows_def nth_append tr)
  qed
  show "length (seq r) - KMERLEN c < length sK \<longrightarrow>
           vK ! (length (seq r) - KMERLEN c) = [] \<and> vS ! (length (seq r) - KMERLEN c) = []"
    using len by (simp add: out padRows_def nth_append n_def [symmetric])
qed

lemma bitMatching_short_read:
  assumes "length (seq r) + 1 < KMERLEN c"
  shows "bitMatching c b q r sK sS = Inl OutOfBounds"
proof -
  from assms have "length (seq r) < KMERLEN c - 1" by simp
  from fwdInit_short [OF this, of 0 b 0] show ?thesis
    by (simp add: bitMatching_def)
qed

lemma bitMatchingRev_short_read:
  assumes "length (seq r) < KMERLEN c" and K: "KMERLEN c \<le> 32"
  shows "bitMatchingRev c b q r sK sS = Inl OutOfBounds"
proof -
  define L where "L = length (seq r)"
  from assms have L: "L < KMERLEN c" "L < 2 ^ 32" "KMERLEN c < 2 ^ 32"
    by (simp_all add: L_def)
  then have rs: "L mod 2 ^ 32 = L" by simp
  from L have lim: "u32sub L (KMERLEN c) = L + 2 ^ 32 - KMERLEN c"
    by (simp add: u32sub_wrap)
  show ?thesis
  proof (cases "L = 0")
    case True
    have i0: "u32sub 0 1 = 2 ^ 32 - 1" by (simp add: u32sub_def)
    show ?thesis
    proof (cases "KMERLEN c = 1")
      case True
      with \<open>L = 0\<close> lim have "u32sub 0 (KMERLEN c) = 2 ^ 32 - 1" by simp
      then show ?thesis
        unfolding bitMatchingRev_def Let_def L_def [symmetric] rs
        using \<open>L = 0\<close> i0 L_def
        by (simp add: revInit_none) (subst revLoop.simps, simp)
    next
      case False
      with L \<open>L = 0\<close> lim i0 have "u32sub 0 1 > u32sub 0 (KMERLEN c)"
        by (simp del: One_nat_def)
      from revInit_oob [OF this, of "seq r" b 0] \<open>L = 0\<close> show ?thesis
        unfolding bitMatchingRev_def Let_def L_def [symmetric] rs
        by (simp add: L_def)
    qed
  next
    case False
    with L have i: "u32sub L 1 = L - 1" by (simp add: u32sub_simple)
    from L False have "\<not> u32sub L 1 > u32sub L (KMERLEN c)"
      unfolding i lim by arith
    from revInit_none [OF this] have ini: "revInit b (seq r) (u32sub L (KMERLEN c)) (u32sub L 1) 0 = Inr 0" .
    from L have "u32sub L (KMERLEN c) > 0" "\<not> u32sub L (KMERLEN c) - 1 < length (seq r)"
      unfolding lim L_def [symmetric] by arith+
    then have "revLoop c b (ref q) (seq r) sK sS (u32sub L (KMERLEN c)) 0 0 = Inl OutOfBounds"
      by (subst revLoop.simps) simp
    then show ?thesis
      unfolding bitMatchingRev_def Let_def L_def [symmetric] rs ini by simp
  qed
qed

subsection \<open>C1 and C4: what bitMatchingRev compares\<close>

text \<open>
  On the forward side the claim holds: \<open>bitMatching_survives_iff\<close> shows that at
  every k-mer offset of a read of at least \<open>KMERLEN\<close> letters the seeds that remain are
  exactly those passing the masked comparison against the read's k-mer at that offset
  (\<open>kmerBitsTrace_recomputed\<close>: the sliding register is that k-mer's encoding), and
  \<open>bitMatch_rejects\<close> shows that one differing bit under the mask rejects the seed.

  \<^verbatim>\<open>bitMatchingRev\<close> is the same loop with the letters taken from the right, but
  its main loop starts at \<^verbatim>\<open>offset = readSize - KMERLEN\<close> and reads
  \<^verbatim>\<open>r.seq[offset - 1]\<close>: the letter at \<open>readSize - KMERLEN\<close> is never shifted
  in and the loop runs \<open>readSize - KMERLEN\<close> times, one less than there are k-mers
  (\<open>kmerBitsRevTrace_length\<close>), so the row of the last k-mer is always emptied
  (\<open>bitMatchingRev_rows\<close>).
\<close>

text \<open>
  Claim C1, at a failing input.  The reference is \<open>AAC\<close> and the read \<open>GTT\<close> is its
  reverse complement; the seeds of offsets 0 and 1 point at the reference k-mers
  \<open>AA\<close> and \<open>AC\<close> on the forward strand.  Both pass the masked comparison against
  the reverse-complement k-mer of the read at their offset, and
  \<^verbatim>\<open>bitMatchingRev\<close> removes both.
\<close>

theorem bitMatchingRev_drops_matching_seeds:
  "survives exCodec exRef (revKmerBitsAt exConst exCodec ''GTT'' 0) (seedAt 0, True) \<and>
   survives exCodec exRef (revKmerBitsAt exConst exCodec ''GTT'' 1) (seedAt 1, True) \<and>
   bitMatchingRev exConst exCodec exBatchQueue \<lparr>seq = ''GTT''\<rparr> exSeedsK exSeedsS
     = Inr (exBatchQueue, [[], []], [[], []])"
  by code_simp

text \<open>
  Claim C4, at a failing input.  The read \<open>GCT\<close> has the reverse complement \<open>AGC\<close>
  with the two k-mers \<open>AG\<close> (encoding 2) and \<open>GC\<close> (encoding 9).  The register of
  \<^verbatim>\<open>bitMatchingRev\<close> takes one value only, and it is the encoding of \<open>AC\<close>, which
  is no k-mer of the reverse complement: the letter in the middle was skipped.
\<close>

theorem bitMatchingRev_register_skips_letter:
  "kmerBitsRevTrace exConst exCodec ''GCT'' = [1] \<and>
   map (revKmerBitsAt exConst exCodec ''GCT'') [0..<2] = [2, 9] \<and>
   kmerBitsTrace exConst exCodec ''GCT'' = map (kmerBitsAt exConst exCodec ''GCT'') [0..<2]"
  by code_simp

subsection \<open>C9: the counter array and the start seeds\<close>

lemma filterRow_in_bounds:
  "filterRow tc cutoff ks ss = Inr (fk, fs) \<Longrightarrow> k \<in> set ks \<Longrightarrow> unat (getMetaCpG k) < length tc"
proof (induction ks arbitrary: ss fk fs)
  case Nil
  then show ?case by simp
next
  case (Cons a ks)
  from Cons.prems(1) have a: "unat (getMetaCpG a) < length tc"
    by (simp split: if_splits)
  from Cons.prems(1) obtain ss' fk' fs' where "filterRow tc cutoff ks ss' = Inr (fk', fs')"
    by (auto split: if_splits list.splits sum.splits)
  from Cons.IH [OF this] Cons.prems(2) a show ?case by auto
qed

lemma filterAll_in_bounds:
  "filterAll tc cutoff sK sS = Inr (fK, fS) \<Longrightarrow> row \<in> set sK \<Longrightarrow> k \<in> set row \<Longrightarrow>
     unat (getMetaCpG k) < length tc"
proof (induction sK arbitrary: sS fK fS)
  case Nil
  then show ?case by simp
next
  case (Cons a sK)
  from Cons.prems(1) obtain srow srows fk fs rk rs where
    sS: "sS = srow # srows" and row: "filterRow tc cutoff a srow = Inr (fk, fs)"
    and rest: "filterAll tc cutoff sK srows = Inr (rk, rs)"
    by (auto split: list.splits sum.splits)
  from Cons.prems(2) have "row = a \<or> row \<in> set sK" by simp
  then show ?case
  proof
    assume "row = a"
    with filterRow_in_bounds [OF row] Cons.prems(3) show ?thesis by simp
  next
    assume "row \<in> set sK"
    from Cons.IH [OF rest this Cons.prems(3)] show ?thesis .
  qed
qed

lemma length_countRow: "countRow ks lastId tc = Inr tc' \<Longrightarrow> length tc' = length tc"
  by (induction ks arbitrary: lastId tc) (auto simp: Let_def split: if_splits)

lemma length_countAll: "countAll sK tc = Inr tc' \<Longrightarrow> length tc' = length tc"
proof (induction sK arbitrary: tc)
  case Nil
  then show ?case by simp
next
  case (Cons row sK)
  from Cons.prems obtain tc1 where r: "countRow row (- 1) tc = Inr tc1"
    and a: "countAll sK tc1 = Inr tc'"
    by (auto split: sum.splits)
  from Cons.IH [OF a] length_countRow [OF r] show ?case by simp
qed

lemma filterHeuSeeds_in_bounds:
  assumes "filterHeuSeeds c tid q sK sS n = Inr (q', fK, fS)"
    and "row \<in> set sK" and "k \<in> set row"
  shows "unat (getMetaCpG k) < length (metaCpGs (ref q))"
proof -
  from assms(1) obtain tc where
    cnt: "countAll sK (replicate (length (metaCpGs (ref q))) 0) = Inr tc"
    and flt: "filterAll tc (countCut c n) sK sS = Inr (fK, fS)"
    by (auto simp: filterHeuSeeds_def split: if_splits sum.splits)
  from filterAll_in_bounds [OF flt assms(2,3)] length_countAll [OF cnt] show ?thesis
    by simp
qed

text \<open>
  Claim C9, at a failing input.  The index has one ordinary meta-CpG and two start
  meta-CpGs.  The seed of the second start meta-CpG (index 1, start flag set) resolves
  to a row of \<^verbatim>\<open>metaStartCpGs\<close> and to a reference k-mer, as
  \<^verbatim>\<open>bitMatching\<close> reads it, but its index is not below
  \<^verbatim>\<open>metaCpGs.size()\<close>, the size of the counter array:
  \<^verbatim>\<open>++threadCount[metaId]\<close> is an access out of bounds.  By
  \<open>filterHeuSeeds_in_bounds\<close> the function is within bounds only when every seed's index
  is below \<^verbatim>\<open>metaCpGs.size()\<close>, which nothing grants for a start seed.
\<close>

theorem filterHeuSeeds_start_seed_out_of_bounds:
  "isStartCpG exStartSeed \<and>
   unat (getMetaCpG exStartSeed) < length (metaStartCpGs exStartRef) \<and>
   fetchRefKmerBit exStartRef exStartSeed True = Inr 0 \<and>
   \<not> unat (getMetaCpG exStartSeed) < length (metaCpGs exStartRef) \<and>
   filterHeuSeeds exConst 0 exStartQueue [[exStartSeed]] [[True]] 2 = Inl OutOfBounds"
  by code_simp

subsection \<open>C2: the counting heuristic\<close>

lemma remdups_adj_Cons_notin: "x \<notin> set xs \<Longrightarrow> remdups_adj (x # xs) = x # remdups_adj xs"
  by (cases xs) auto

lemma countRow_spec:
  "distinct (remdups_adj (lastId # map getMetaCpG ks)) \<Longrightarrow> countRow ks lastId tc = Inr tc' \<Longrightarrow>
   unat m < length tc \<Longrightarrow>
   tc' ! unat m = tc ! unat m + (if m \<in> set (map getMetaCpG ks) \<and> m \<noteq> lastId then 1 else 0)"
proof (induction ks arbitrary: lastId tc)
  case Nil
  then show ?case by simp
next
  case (Cons k ks)
  define m0 where "m0 = getMetaCpG k"
  show ?case
  proof (cases "m0 = lastId")
    case True
    with Cons.prems have d: "distinct (remdups_adj (lastId # map getMetaCpG ks))"
      and r: "countRow ks lastId tc = Inr tc'"
      by (simp_all add: m0_def)
    from Cons.IH [OF d r Cons.prems(3)] True show ?thesis
      by (auto simp: m0_def)
  next
    case False
    with Cons.prems(2) have inb: "unat m0 < length tc"
      and r: "countRow ks m0 (tc[unat m0 := tc ! unat m0 + 1]) = Inr tc'"
      by (simp_all add: m0_def Let_def split: if_splits)
    from Cons.prems(1) False have d: "distinct (remdups_adj (m0 # map getMetaCpG ks))"
      and notin: "lastId \<notin> set (m0 # map getMetaCpG ks)"
      by (simp_all add: m0_def)
    from Cons.prems(3) have len: "unat m < length (tc[unat m0 := tc ! unat m0 + 1])" by simp
    have upd: "(tc[unat m0 := tc ! unat m0 + 1]) ! unat m = tc ! unat m + (if m = m0 then 1 else 0)"
      using Cons.prems(3) by (auto simp: nth_list_update word_unat_eq_iff)
    from Cons.IH [OF d r len] upd notin False show ?thesis
      by (auto simp: m0_def [symmetric])
  qed
qed

lemma countAll_spec:
  "\<forall>row\<in>set sK. distinct (remdups_adj (map getMetaCpG row)) \<and> - 1 \<notin> set (map getMetaCpG row) \<Longrightarrow>
   countAll sK tc = Inr tc' \<Longrightarrow> unat m < length tc \<Longrightarrow>
   tc' ! unat m
     = tc ! unat m + of_nat (length (filter (\<lambda>row. m \<in> set (map getMetaCpG row)) sK))"
proof (induction sK arbitrary: tc)
  case Nil
  then show ?case by simp
next
  case (Cons row sK)
  from Cons.prems(2) obtain tc1 where r: "countRow row (- 1) tc = Inr tc1"
    and a: "countAll sK tc1 = Inr tc'"
    by (auto split: sum.splits)
  from Cons.prems(1) have d: "distinct (remdups_adj (map getMetaCpG row))"
    and n: "- 1 \<notin> set (map getMetaCpG row)"
    and rest: "\<forall>row\<in>set sK. distinct (remdups_adj (map getMetaCpG row)) \<and>
        - 1 \<notin> set (map getMetaCpG row)"
    by simp_all
  from d n have d': "distinct (remdups_adj (- 1 # map getMetaCpG row))"
    by (simp add: remdups_adj_Cons_notin)
  from length_countRow [OF r] Cons.prems(3) have len: "unat m < length tc1" by simp
  have one: "tc1 ! unat m
     = tc ! unat m + (if m \<in> set (map getMetaCpG row) \<and> m \<noteq> - 1 then 1 else 0)"
    by (rule countRow_spec [OF d' r Cons.prems(3)])
  from n have "m \<in> set (map getMetaCpG row) \<Longrightarrow> m \<noteq> - 1" by force
  with one have one': "tc1 ! unat m
     = tc ! unat m + (if m \<in> set (map getMetaCpG row) then 1 else 0)" by auto
  from Cons.IH [OF rest a len] one' show ?case by simp
qed

lemma filterRow_filter:
  "filterRow tc cutoff ks ss = Inr (fk, fs) \<Longrightarrow>
     fk = filter (\<lambda>k. cutoff \<le> tc ! unat (getMetaCpG k)) ks"
proof (induction ks arbitrary: ss fk fs)
  case Nil
  then show ?case by simp
next
  case (Cons k ks)
  show ?case
  proof (cases "cutoff \<le> tc ! unat (getMetaCpG k)")
    case True
    with Cons.prems obtain s ss' fk' fs' where
      r: "filterRow tc cutoff ks ss' = Inr (fk', fs')" and out: "fk = k # fk'"
      by (auto split: if_splits list.splits sum.splits)
    from Cons.IH [OF r] True show ?thesis by (simp add: out)
  next
    case False
    with Cons.prems have r: "filterRow tc cutoff ks (tl ss) = Inr (fk, fs)"
      by (auto split: if_splits)
    from Cons.IH [OF r] False show ?thesis by simp
  qed
qed

lemma filterAll_filter:
  "filterAll tc cutoff sK sS = Inr (fK, fS) \<Longrightarrow>
     fK = map (filter (\<lambda>k. cutoff \<le> tc ! unat (getMetaCpG k))) sK"
proof (induction sK arbitrary: sS fK fS)
  case Nil
  then show ?case by simp
next
  case (Cons row rows)
  from Cons.prems obtain srow srows fk fs rk rs where
    row: "filterRow tc cutoff row srow = Inr (fk, fs)"
    and rest: "filterAll tc cutoff rows srows = Inr (rk, rs)"
    and out: "fK = fk # rk"
    by (auto split: list.splits sum.splits)
  from Cons.IH [OF rest] filterRow_filter [OF row] show ?case
    by (simp add: out)
qed

lemma countCut_no_wrap:
  assumes "KMERLEN c + KMERLEN c * MISCOUNT c \<le> L + 1"
  shows "countCut c (of_nat L) = of_nat (heuBound c L)"
proof -
  from assms have "L + 1 = heuBound c L + KMERLEN c + KMERLEN c * MISCOUNT c"
    by (simp add: heuBound_def)
  then have "(of_nat (L + 1) :: 32 word)
      = of_nat (heuBound c L + KMERLEN c + KMERLEN c * MISCOUNT c)"
    by simp
  then show ?thesis
    by (simp add: countCut_def algebra_simps)
qed

lemma of_nat_le_32:
  assumes "a < 2 ^ 32" and "b < 2 ^ 32"
  shows "((of_nat a :: 32 word) \<le> of_nat b) = (a \<le> b)"
  using assms by (simp add: word_le_nat_alt unat_of_nat)

lemma flagsAgree_key:
  assumes "flagsAgree sK" and "row \<in> set sK" and "k \<in> set row" and "row' \<in> set sK"
  shows "(getMetaCpG k \<in> set (map getMetaCpG row')) = (metaKey k \<in> set (map metaKey row'))"
proof
  assume "getMetaCpG k \<in> set (map getMetaCpG row')"
  then obtain k' where k': "k' \<in> set row'" "getMetaCpG k = getMetaCpG k'" by auto
  from assms(1) have "\<forall>a\<in>set (concat sK). \<forall>b\<in>set (concat sK).
      getMetaCpG a \<noteq> getMetaCpG b \<or> isStartCpG a = isStartCpG b"
    unfolding flagsAgree_def list_all_iff .
  moreover from assms(2,3) have "k \<in> set (concat sK)" by auto
  moreover from assms(4) k'(1) have "k' \<in> set (concat sK)" by auto
  ultimately have "isStartCpG k = isStartCpG k'" using k'(2) by blast
  with k' have "metaKey k = metaKey k'" by (simp add: metaKey_def)
  with k'(1) show "metaKey k \<in> set (map metaKey row')" by simp
next
  assume "metaKey k \<in> set (map metaKey row')"
  then obtain k' where "k' \<in> set row'" "metaKey k = metaKey k'" by auto
  then have "k' \<in> set row'" "getMetaCpG k = getMetaCpG k'" by (simp_all add: metaKey_def)
  then show "getMetaCpG k \<in> set (map getMetaCpG row')" by simp
qed



lemma tally_le: "tally sK m \<le> length sK"
  by (simp add: tally_def)

lemma unat_minus_1_64: "unat (- 1 :: 64 word) = 2 ^ 64 - 1"
  by (simp add: unsigned_minus_1_eq_mask mask_eq_exp_minus_1)

text \<open>
  Where the counting heuristic meets its description.  Take a read of \<open>L\<close> letters,
  \<open>L < 2 ^ 32\<close>, with \<open>KMERLEN + KMERLEN * MISCOUNT \<le> L + 1\<close>, so that
  \<^verbatim>\<open>countCut\<close> does not wrap around in \<^verbatim>\<open>unsigned int\<close>; seed tables with fewer
  than \<open>2 ^ 32\<close> offsets in which, at every offset, the seeds with the same meta-CpG
  index stand next to each other, and in which no index is used by a start seed and an
  ordinary seed alike; and an index of fewer than \<open>2 ^ 32\<close> meta-CpGs.  If
  \<^verbatim>\<open>filterHeuSeeds\<close> runs within bounds, then the counter of every meta-CpG met in
  the tables is the number of k-mer offsets whose seed list refers to it, and a seed
  stays, at every offset, if and only if the tally of its meta-CpG is at least
  \<open>L - KMERLEN + 1 - KMERLEN * MISCOUNT\<close>.
\<close>

theorem filterHeuSeeds_tally_bound:
  assumes run: "filterHeuSeeds c tid q sK sS (of_nat L) = Inr (q', fK, fS)"
    and K: "0 < KMERLEN c"
    and nowrap: "KMERLEN c + KMERLEN c * MISCOUNT c \<le> L + 1" "L < 2 ^ 32"
    and sizes: "length sK < 2 ^ 32" "length (metaCpGs (ref q)) < 2 ^ 32"
    and adj: "adjacentIds sK" and flags: "flagsAgree sK"
  shows "fK = map (filter (\<lambda>k. heuBound c L \<le> tally sK (metaKey k))) sK \<and>
         (\<forall>row\<in>set sK. \<forall>k\<in>set row.
            counts q' ! tid ! unat (getMetaCpG k) = of_nat (tally sK (metaKey k)))"
proof -
  define n where "n = length (metaCpGs (ref q))"
  from run obtain tc where
    cnt: "countAll sK (replicate n 0) = Inr tc"
    and flt: "filterAll tc (countCut c (of_nat L)) sK sS = Inr (fK, fS)"
    and q': "q' = q\<lparr>counts := (counts q)[tid := tc]\<rparr>" and tid: "tid < length (counts q)"
    by (auto simp: filterHeuSeeds_def n_def split: if_splits sum.splits)
  have inb: "unat (getMetaCpG k) < n" if "row \<in> set sK" "k \<in> set row" for row k
    using filterHeuSeeds_in_bounds [OF run that] by (simp add: n_def)
  have no1: "- 1 \<notin> set (map getMetaCpG row)" if row: "row \<in> set sK" for row
  proof
    assume "- 1 \<in> set (map getMetaCpG row)"
    then obtain k where k: "k \<in> set row" "getMetaCpG k = - 1" by auto
    from inb [OF row k(1)] have "unat (- 1 :: 64 word) < n" by (simp add: k(2))
    with sizes(2) show False by (simp add: n_def unat_minus_1_64)
  qed
  have pre: "\<forall>row\<in>set sK. distinct (remdups_adj (map getMetaCpG row)) \<and>
      - 1 \<notin> set (map getMetaCpG row)"
  proof
    fix row assume row: "row \<in> set sK"
    from adj row have "distinct (remdups_adj (map getMetaCpG row))"
      unfolding adjacentIds_def list_all_iff by blast
    with no1 [OF row] show "distinct (remdups_adj (map getMetaCpG row)) \<and>
      - 1 \<notin> set (map getMetaCpG row)" by blast
  qed
  have cell: "tc ! unat (getMetaCpG k) = of_nat (tally sK (metaKey k))"
    if row: "row \<in> set sK" and k: "k \<in> set row" for row k
  proof -
    from inb [OF row k] have len: "unat (getMetaCpG k) < length (replicate n (0 :: 32 word))"
      by simp
    have "filter (\<lambda>row'. getMetaCpG k \<in> set (map getMetaCpG row')) sK
        = filter (\<lambda>row'. metaKey k \<in> set (map metaKey row')) sK"
      by (rule filter_cong [OF refl]) (rule flagsAgree_key [OF flags row k])
    with countAll_spec [OF pre cnt len] inb [OF row k] show ?thesis
      by (simp add: tally_def)
  qed
  from K nowrap have hb: "heuBound c L < 2 ^ 32" by (simp add: heuBound_def)
  have keep: "(countCut c (of_nat L) \<le> tc ! unat (getMetaCpG k))
      = (heuBound c L \<le> tally sK (metaKey k))"
    if row: "row \<in> set sK" and k: "k \<in> set row" for row k
  proof -
    from tally_le [of sK "metaKey k"] sizes(1) have t: "tally sK (metaKey k) < 2 ^ 32" by simp
    show ?thesis
      unfolding countCut_no_wrap [OF nowrap(1)] cell [OF row k]
      by (rule of_nat_le_32 [OF hb t])
  qed
  have "fK = map (filter (\<lambda>k. countCut c (of_nat L) \<le> tc ! unat (getMetaCpG k))) sK"
    by (rule filterAll_filter [OF flt])
  also have "\<dots> = map (filter (\<lambda>k. heuBound c L \<le> tally sK (metaKey k))) sK"
    by (intro map_cong filter_cong refl) (rule keep)
  finally have first: "fK = map (filter (\<lambda>k. heuBound c L \<le> tally sK (metaKey k))) sK" .
  from tid have "counts q' ! tid = tc" by (simp add: q')
  with cell first show ?thesis by simp
qed

text \<open>Meta-CpG 0 is hit at two offsets of a read of five letters and meets the bound
  \<open>5 - 2 + 1 - 2 * 1 = 2\<close>, meta-CpG 1 is hit at one offset, one below the bound, and
  loses its seed.\<close>

theorem filterHeuSeeds_tally_bound_witness:
  "filterHeuSeeds exConst 0 exBatchQueue exTallySeedsK exTallySeedsS (of_nat 5)
     = Inr (exBatchQueue\<lparr>counts := [[2, 1], [7]]\<rparr>,
            [[seedIn 0 0], [seedIn 0 1], [], []], [[True], [True], [], []]) \<and>
   0 < KMERLEN exConst \<and>
   KMERLEN exConst + KMERLEN exConst * MISCOUNT exConst \<le> 5 + 1 \<and>
   adjacentIds exTallySeedsK \<and> flagsAgree exTallySeedsK \<and>
   tally exTallySeedsK (metaKey (seedIn 0 0)) = heuBound exConst 5 \<and>
   tally exTallySeedsK (metaKey (seedIn 1 0)) + 1 = heuBound exConst 5 \<and>
   [[seedIn 0 0], [seedIn 0 1], [], []]
     = map (filter (\<lambda>k. heuBound exConst 5 \<le> tally exTallySeedsK (metaKey k))) exTallySeedsK \<and>
   counts (exBatchQueue\<lparr>counts := [[2, 1], [7]]\<rparr>) ! 0 ! unat (getMetaCpG (seedIn 1 0))
     = of_nat (tally exTallySeedsK (metaKey (seedIn 1 0)))"
proof -
  have run: "filterHeuSeeds exConst 0 exBatchQueue exTallySeedsK exTallySeedsS (of_nat 5)
     = Inr (exBatchQueue\<lparr>counts := [[2, 1], [7]]\<rparr>,
            [[seedIn 0 0], [seedIn 0 1], [], []], [[True], [True], [], []])"
    by code_simp
  have K: "0 < KMERLEN exConst" by (simp add: exConst_def)
  have nowrap: "KMERLEN exConst + KMERLEN exConst * MISCOUNT exConst \<le> 5 + 1"
    "(5 :: nat) < 2 ^ 32"
    by (simp_all add: exConst_def)
  have sizes: "length exTallySeedsK < 2 ^ 32" "length (metaCpGs (ref exBatchQueue)) < 2 ^ 32"
    by (simp_all add: exTallySeedsK_def exBatchQueue_def exQueue_def exRef_def)
  have adj: "adjacentIds exTallySeedsK" by code_simp
  have flags: "flagsAgree exTallySeedsK" by code_simp
  have t0: "tally exTallySeedsK (metaKey (seedIn 0 0)) = heuBound exConst 5" by code_simp
  have t1: "tally exTallySeedsK (metaKey (seedIn 1 0)) + 1 = heuBound exConst 5" by code_simp
  have mem: "[seedIn 0 0, seedIn 1 0] \<in> set exTallySeedsK"
    "seedIn 1 0 \<in> set [seedIn 0 0, seedIn 1 0]"
    by (simp_all add: exTallySeedsK_def)
  note main = filterHeuSeeds_tally_bound [OF run K nowrap sizes adj flags]
  from main have a: "[[seedIn 0 0], [seedIn 0 1], [], []]
     = map (filter (\<lambda>k. heuBound exConst 5 \<le> tally exTallySeedsK (metaKey k))) exTallySeedsK"
    by (rule conjunct1)
  from main mem have b: "counts (exBatchQueue\<lparr>counts := [[2, 1], [7]]\<rparr>) ! 0
       ! unat (getMetaCpG (seedIn 1 0))
     = of_nat (tally exTallySeedsK (metaKey (seedIn 1 0)))"
    by blast
  from run K nowrap(1) adj flags t0 t1 a b show ?thesis by blast
qed

text \<open>The seeds of one meta-CpG have to stand next to each other in an offset's list,
  as the buckets of the hash index are said to deliver them: where they do not,
  \<open>lastId\<close> does not recognise the second one, the meta-CpG is counted twice at that
  offset, and here it keeps its seeds with one supporting offset, one below the bound 2.\<close>

theorem filterHeuSeeds_counts_split_seeds_twice:
  "tally exSplitSeedsK (metaKey (seedIn 0 0)) = 1 \<and> heuBound exConst 5 = 2 \<and>
   filterHeuSeeds exConst 0 exBatchQueue exSplitSeedsK exSplitSeedsS 5
     = Inr (exBatchQueue\<lparr>counts := [[2, 1], [7]]\<rparr>,
            [[seedIn 0 0, seedIn 0 1], [], [], []], [[True, True], [], [], []])"
  by code_simp

text \<open>The start flag of a seed is not read by \<^verbatim>\<open>filterHeuSeeds\<close>: the ordinary
  meta-CpG 0 and the start meta-CpG 0 share the counter of index 0.  Each is hit at one
  offset of a read of five letters, one below the bound 2, and both keep their seeds.\<close>

lemma filterHeuSeeds_merges_start_and_ordinary:
  "tally exMixedSeedsK (metaKey (seedIn 0 1)) = 1 \<and>
   tally exMixedSeedsK (metaKey exStartSeed0) = 1 \<and>
   heuBoundInt exConst 5 = 2 \<and> adjacentIds exMixedSeedsK \<and>
   filterHeuSeeds exConst 0 exStartQueue exMixedSeedsK exMixedSeedsS 5
     = Inr (exStartQueue\<lparr>counts := [[2]]\<rparr>, exMixedSeedsK, exMixedSeedsS)"
  by code_simp

text \<open>\<^verbatim>\<open>countCut\<close> wraps around for every read with
  \<open>L + 1 < KMERLEN + KMERLEN * MISCOUNT\<close>, where the bound is negative.\<close>

lemma countCut_wraps:
  assumes "L + 1 < KMERLEN c + KMERLEN c * MISCOUNT c"
    and "KMERLEN c + KMERLEN c * MISCOUNT c \<le> 2 ^ 32"
  shows "unat (countCut c (of_nat L)) + (KMERLEN c + KMERLEN c * MISCOUNT c) = 2 ^ 32 + L + 1"
proof -
  define N :: nat where "N = 2 ^ 32"
  define d where "d = KMERLEN c + KMERLEN c * MISCOUNT c - (L + 1)"
  from assms have d: "0 < d" "d \<le> N" "KMERLEN c + KMERLEN c * MISCOUNT c = L + 1 + d"
    by (simp_all add: d_def N_def)
  have N0: "(of_nat N :: 32 word) = 0" by (simp add: N_def)
  have "countCut c (of_nat L) = (of_nat (L + 1) :: 32 word) - of_nat (KMERLEN c + KMERLEN c * MISCOUNT c)"
    by (simp add: countCut_def algebra_simps)
  also have "\<dots> = - of_nat d" unfolding d(3) by simp
  also have "\<dots> = (of_nat (N - d) :: 32 word)"
    using d(2) N0 by (simp add: of_nat_diff)
  finally have "unat (countCut c (of_nat L)) = unat (of_nat (N - d) :: 32 word)" by simp
  also have "\<dots> = (N - d) mod N" unfolding N_def by (simp add: unat_of_nat)
  also from d(1,2) have "\<dots> = N - d" by simp
  finally have "unat (countCut c (of_nat L)) = N - d" .
  with d(2,3) have "unat (countCut c (of_nat L)) + (KMERLEN c + KMERLEN c * MISCOUNT c) = N + L + 1"
    by arith
  then show ?thesis unfolding N_def .
qed

text \<open>
  Claim C2, at a failing input.  The read has two letters, as many as a k-mer
  (\<open>KMERLEN = 2\<close>, \<open>MISCOUNT = 1\<close>), hence one k-mer offset, whose list holds one
  seed of meta-CpG 0.  The tally of meta-CpG 0 is 1 and the bound
  \<open>L - KMERLEN + 1 - KMERLEN * MISCOUNT\<close> is \<open>2 - 2 + 1 - 2 = -1\<close>: the tally is at
  least the bound, and the seed is to be retained.  \<^verbatim>\<open>filterHeuSeeds\<close> computes the
  bound in \<^verbatim>\<open>unsigned int\<close> (line 76), where it is \<open>4294967295\<close>; the counter 1
  is below it and the seed is removed.
\<close>

theorem filterHeuSeeds_countCut_wraps_at_short_read:
  "KMERLEN exConst \<le> 2 \<and>
   tally exShortSeedsK (metaKey (seedAt 0)) = 1 \<and>
   heuBoundInt exConst 2 = - 1 \<and>
   heuBoundInt exConst 2 \<le> int (tally exShortSeedsK (metaKey (seedAt 0))) \<and>
   countCut exConst 2 = 4294967295 \<and>
   filterHeuSeeds exConst 0 exQueue exShortSeedsK exShortSeedsS 2
     = Inr (exQueue\<lparr>counts := [[1, 0], [7]]\<rparr>, [[]], [[]])"
  by code_simp

subsection \<open>C3: reads shorter than the k-mer length\<close>

lemma matchRead_short:
  "length (seq r) < KMERLEN c \<Longrightarrow> matchRead c b sd tid q r = Inr (q, ([], []), ([], []))"
  by (simp add: matchRead_def)

lemma matchAll_skip_short:
  assumes "length (seq r) < KMERLEN c"
  shows "matchAll c b sd q (xs @ (tid, r) # ys)
       = map_sum id
           (\<lambda>(q', ress). (q', take (length xs) ress @ (([], []), ([], [])) # drop (length xs) ress))
           (matchAll c b sd q (xs @ ys))"
proof (induction xs arbitrary: q)
  case Nil
  show ?case
    by (cases "matchAll c b sd q ys") (auto simp: matchRead_short [OF assms])
next
  case (Cons x xs)
  obtain t r' where x: "x = (t, r')" by (cases x)
  show ?case
  proof (cases "matchRead c b sd t q r'")
    case (Inl e)
    then show ?thesis by (simp add: x)
  next
    case (Inr p)
    obtain q1 res where p: "p = (q1, res)" by (cases p)
    show ?thesis
      by (cases "matchAll c b sd q1 (xs @ ys)") (auto simp: x Inr p Cons.IH [of q1])
  qed
qed

text \<open>
  Claim C3.  \<^verbatim>\<open>matchReads\<close> is not in the sources; in the model that follows the
  spec a read shorter than \<open>KMERLEN\<close> yields the empty seed-list collection for both
  orientations, without an error and without a change of the object state, and a batch
  with such a read in it fails or succeeds exactly as the batch without it, with the
  same results for all the other reads and the empty result at the place of the short
  read.  The functions of \<^verbatim>\<open>ReadQueue.h\<close> do not handle such a read themselves:
  \<open>bitMatching_short_read\<close> and \<open>bitMatchingRev_short_read\<close> show that
  \<^verbatim>\<open>bitMatching\<close> reads beyond the read when it has fewer than \<open>KMERLEN - 1\<close>
  letters and \<^verbatim>\<open>bitMatchingRev\<close> when it has fewer than \<open>KMERLEN\<close>; the guard has
  to be the caller's.
\<close>

theorem short_read_yields_empty:
  assumes "length (seq r) < KMERLEN c"
  shows "matchRead c b sd tid q r = Inr (q, ([], []), ([], [])) \<and>
         matchAll c b sd q (xs @ (tid, r) # ys)
           = map_sum id
               (\<lambda>(q', ress).
                  (q', take (length xs) ress @ (([], []), ([], [])) # drop (length xs) ress))
               (matchAll c b sd q (xs @ ys))"
  using matchRead_short [OF assms] matchAll_skip_short [OF assms] by blast

theorem short_read_yields_empty_witness:
  "length (seq \<lparr>seq = ''A''\<rparr>) < KMERLEN exConst \<and>
   matchRead exConst exCodec exSeeding 1 exBatchQueue \<lparr>seq = ''A''\<rparr>
     = Inr (exBatchQueue, ([], []), ([], [])) \<and>
   matchAll exConst exCodec exSeeding exBatchQueue [(0, \<lparr>seq = ''AAC''\<rparr>)]
     = Inr (exBatchQueue\<lparr>counts := [[2, 0], [7]]\<rparr>,
            [((exSeedsK, exSeedsS), ([[], []], [[], []]))]) \<and>
   matchAll exConst exCodec exSeeding exBatchQueue
       [(0, \<lparr>seq = ''AAC''\<rparr>), (1, \<lparr>seq = ''A''\<rparr>)]
     = Inr (exBatchQueue\<lparr>counts := [[2, 0], [7]]\<rparr>,
            [((exSeedsK, exSeedsS), ([[], []], [[], []])), (([], []), ([], []))])"
proof -
  have s: "length (seq \<lparr>seq = ''A''\<rparr>) < KMERLEN exConst" by (simp add: exConst_def)
  have a: "matchAll exConst exCodec exSeeding exBatchQueue [(0, \<lparr>seq = ''AAC''\<rparr>)]
     = Inr (exBatchQueue\<lparr>counts := [[2, 0], [7]]\<rparr>,
            [((exSeedsK, exSeedsS), ([[], []], [[], []]))])"
    by code_simp
  note main = short_read_yields_empty [OF s, of exCodec exSeeding 1 exBatchQueue
      "[(0, \<lparr>seq = ''AAC''\<rparr>)]" "[]"]
  from main have one: "matchRead exConst exCodec exSeeding 1 exBatchQueue \<lparr>seq = ''A''\<rparr>
     = Inr (exBatchQueue, ([], []), ([], []))"
    by (rule conjunct1)
  from main a have two: "matchAll exConst exCodec exSeeding exBatchQueue
       [(0, \<lparr>seq = ''AAC''\<rparr>), (1, \<lparr>seq = ''A''\<rparr>)]
     = Inr (exBatchQueue\<lparr>counts := [[2, 0], [7]]\<rparr>,
            [((exSeedsK, exSeedsS), ([[], []], [[], []])), (([], []), ([], []))])"
    by simp
  from s one a two show ?thesis by blast
qed

subsection \<open>C7: which CpGs share a meta-CpG\<close>

lemma length_groupFirsts: "length (groupFirsts W f fi rest i) = length rest"
  by (induction rest arbitrary: f fi i) auto

lemma length_firstsOf: "length (firstsOf W cpgs) = length cpgs"
  by (cases cpgs) (simp_all add: firstsOf_def length_groupFirsts)

lemma starts_remdups:
  "fi < i \<Longrightarrow> remdups_adj (fi # groupFirsts W f fi rest i) = fi # metaStarts W f rest i"
proof (induction rest arbitrary: f fi i)
  case Nil
  show ?case by simp
next
  case (Cons c rest)
  show ?case
  proof (cases "joins W f c")
    case True
    with Cons.IH [where f = f and fi = fi and i = "i + 1"] Cons.prems show ?thesis by simp
  next
    case False
    with Cons.IH [where f = c and fi = i and i = "i + 1"] Cons.prems show ?thesis by simp
  qed
qed

lemma groupFirsts_step:
  assumes "all = pre @ rest" and "length pre = i" and "fi < i" and "all ! fi = f"
    and "k < length rest"
  shows "groupFirsts W f fi rest i ! k
       = (let prev = (if k = 0 then fi else groupFirsts W f fi rest i ! (k - 1))
          in if joins W (all ! prev) (rest ! k) then prev else i + k)"
  using assms
proof (induction rest arbitrary: pre f fi i k)
  case Nil
  then show ?case by simp
next
  case (Cons c rest)
  show ?case
  proof (cases k)
    case 0
    with Cons.prems show ?thesis by simp
  next
    case (Suc k')
    with Cons.prems have k': "k' < length rest" by simp
    from Cons.prems have all: "all = (pre @ [c]) @ rest" and len: "length (pre @ [c]) = i + 1"
      by simp_all
    show ?thesis
    proof (cases "joins W f c")
      case True
      from Cons.prems have fi: "fi < i + 1" by simp
      from Cons.IH [OF all len fi Cons.prems(4) k'] True show ?thesis
        by (cases k') (simp_all add: Suc Let_def)
    next
      case False
      have i: "i < i + 1" by simp
      from Cons.prems have c: "all ! i = c" by (simp add: nth_append)
      from Cons.IH [OF all len i c k'] False show ?thesis
        by (cases k') (simp_all add: Suc Let_def)
    qed
  qed
qed

lemma firstsOf_0: "cpgs \<noteq> [] \<Longrightarrow> firstsOf W cpgs ! 0 = 0"
  by (cases cpgs) (simp_all add: firstsOf_def)

lemma firstsOf_Suc:
  assumes "Suc j < length cpgs"
  shows "firstsOf W cpgs ! Suc j
       = (if joins W (cpgs ! (firstsOf W cpgs ! j)) (cpgs ! Suc j)
          then firstsOf W cpgs ! j else Suc j)"
proof -
  from assms obtain f rest where cpgs: "cpgs = f # rest" by (cases cpgs) auto
  with assms have j: "j < length rest" by simp
  have a: "cpgs = [f] @ rest" by (simp add: cpgs)
  have prev: "(if j = 0 then 0 else groupFirsts W f 0 rest 1 ! (j - 1)) = firstsOf W cpgs ! j"
    by (cases j) (simp_all add: firstsOf_def cpgs)
  from groupFirsts_step [OF a _ _ _ j, of 1 0 f W] show ?thesis
    unfolding prev Let_def by (simp add: firstsOf_def cpgs)
qed


lemma firstsOf_le: "j < length cpgs \<Longrightarrow> firstsOf W cpgs ! j \<le> j"
proof (induction j)
  case 0
  then show ?case by (simp add: firstsOf_0)
next
  case (Suc j)
  then show ?case by (simp add: firstsOf_Suc)
qed

lemma joins_refl: "joins W c c"
  by (simp add: joins_def)

lemma firstsOf_joins:
  "j < length cpgs \<Longrightarrow> joins W (cpgs ! (firstsOf W cpgs ! j)) (cpgs ! j)"
proof (induction j)
  case 0
  then show ?case by (simp add: firstsOf_0 joins_refl)
next
  case (Suc j)
  then show ?case by (simp add: firstsOf_Suc joins_refl)
qed

lemma firstsOf_idem:
  "j < length cpgs \<Longrightarrow> firstsOf W cpgs ! (firstsOf W cpgs ! j) = firstsOf W cpgs ! j"
proof (induction j)
  case 0
  then show ?case by (simp add: firstsOf_0)
next
  case (Suc j)
  then show ?case by (simp add: firstsOf_Suc)
qed

lemma firstsOf_mono:
  "i \<le> j \<Longrightarrow> j < length cpgs \<Longrightarrow> firstsOf W cpgs ! i \<le> firstsOf W cpgs ! j"
proof (induction j)
  case 0
  then show ?case by simp
next
  case (Suc j)
  show ?case
  proof (cases "i = Suc j")
    case True
    then show ?thesis by simp
  next
    case False
    with Suc.prems have ij: "i \<le> j" and j: "j < length cpgs" by simp_all
    from Suc.IH [OF ij j] firstsOf_le [OF j, of W] Suc.prems(2) show ?thesis
      by (simp add: firstsOf_Suc)
  qed
qed

lemma cpgSorted_nth:
  assumes "cpgSorted cpgs" and "a \<le> b" and "b < length cpgs"
  shows "chrom (cpgs ! a) \<le> chrom (cpgs ! b)"
    and "chrom (cpgs ! a) = chrom (cpgs ! b) \<Longrightarrow> unat (pos (cpgs ! a)) \<le> unat (pos (cpgs ! b))"
proof -
  have *: "chrom (cpgs ! a) < chrom (cpgs ! b) \<or>
      (chrom (cpgs ! a) = chrom (cpgs ! b) \<and> pos (cpgs ! a) \<le> pos (cpgs ! b))"
  proof (cases "a = b")
    case True
    then show ?thesis by simp
  next
    case False
    with assms(2) have "a < b" by simp
    with assms(1,3) show ?thesis
      unfolding cpgSorted_def sorted_wrt_iff_nth_less by blast
  qed
  from * show "chrom (cpgs ! a) \<le> chrom (cpgs ! b)" by auto
  from * show "unat (pos (cpgs ! a)) \<le> unat (pos (cpgs ! b))"
    if "chrom (cpgs ! a) = chrom (cpgs ! b)"
    using that by (auto simp: word_le_nat_alt)
qed

lemma joins_between:
  assumes s: "cpgSorted cpgs" and ab: "a \<le> b" "b \<le> d" "d < length cpgs"
    and j: "joins W (cpgs ! a) (cpgs ! d)"
  shows "joins W (cpgs ! a) (cpgs ! b)"
proof -
  from ab have b: "b < length cpgs" and ad: "a \<le> d" by simp_all
  from j have cd: "chrom (cpgs ! d) = chrom (cpgs ! a)"
    and pd: "unat (pos (cpgs ! d)) \<le> unat (pos (cpgs ! a)) + W"
    by (simp_all add: joins_def)
  from cpgSorted_nth(1) [OF s ab(1) b] cpgSorted_nth(1) [OF s ab(2,3)] cd
  have cb: "chrom (cpgs ! b) = chrom (cpgs ! a)" by simp
  with cd have "chrom (cpgs ! b) = chrom (cpgs ! d)" by simp
  from cpgSorted_nth(2) [OF s ab(2,3) this] pd cb show ?thesis
    by (simp add: joins_def)
qed

lemma firstsOf_same_iff:
  assumes s: "cpgSorted cpgs"
  shows "i \<le> j \<Longrightarrow> j < length cpgs \<Longrightarrow>
    (firstsOf W cpgs ! j = firstsOf W cpgs ! i)
      = joins W (cpgs ! (firstsOf W cpgs ! i)) (cpgs ! j)"
proof (induction j)
  case 0
  then show ?case by (simp add: firstsOf_0 joins_refl)
next
  case (Suc j)
  let ?g = "firstsOf W cpgs"
  show ?case
  proof (cases "i = Suc j")
    case True
    with firstsOf_joins [OF Suc.prems(2), of W] show ?thesis by simp
  next
    case False
    with Suc.prems have ij: "i \<le> j" and j: "j < length cpgs" by simp_all
    note ih = Suc.IH [OF ij j]
    from firstsOf_le [of i cpgs W] ij j have gi: "?g ! i \<le> i" by simp
    show ?thesis
    proof
      assume eq: "?g ! Suc j = ?g ! i"
      from gi ij have "?g ! i \<noteq> Suc j" by simp
      with eq firstsOf_Suc [OF Suc.prems(2), of W]
      have "joins W (cpgs ! (?g ! j)) (cpgs ! Suc j)" and "?g ! j = ?g ! i"
        by (auto split: if_splits)
      then show "joins W (cpgs ! (?g ! i)) (cpgs ! Suc j)" by simp
    next
      assume jn: "joins W (cpgs ! (?g ! i)) (cpgs ! Suc j)"
      from gi ij have a: "?g ! i \<le> j" by simp
      have "joins W (cpgs ! (?g ! i)) (cpgs ! j)"
        by (rule joins_between [OF s a _ Suc.prems(2) jn]) simp
      with ih have "?g ! j = ?g ! i" by simp
      with jn firstsOf_Suc [OF Suc.prems(2), of W] show "?g ! Suc j = ?g ! i" by simp
    qed
  qed
qed

lemma firstsOf_same_within:
  assumes s: "cpgSorted cpgs" and ij: "i \<le> j" "j < length cpgs"
    and eq: "firstsOf W cpgs ! j = firstsOf W cpgs ! i"
  shows "withinReadLen W (cpgs ! i) (cpgs ! j)"
proof -
  let ?f = "firstsOf W cpgs ! i"
  from ij have i: "i < length cpgs" by simp
  from firstsOf_joins [OF i, of W] have ji: "joins W (cpgs ! ?f) (cpgs ! i)" .
  from firstsOf_joins [OF ij(2), of W] eq have jj: "joins W (cpgs ! ?f) (cpgs ! j)" by simp
  from ji jj have c: "chrom (cpgs ! i) = chrom (cpgs ! j)" by (simp add: joins_def)
  from firstsOf_le [OF i, of W] have fi: "?f \<le> i" .
  from ji have "chrom (cpgs ! ?f) = chrom (cpgs ! i)" by (simp add: joins_def)
  from cpgSorted_nth(2) [OF s fi i this]
  have lo: "unat (pos (cpgs ! ?f)) \<le> unat (pos (cpgs ! i))" .
  from cpgSorted_nth(2) [OF s ij c] have up: "unat (pos (cpgs ! i)) \<le> unat (pos (cpgs ! j))" .
  from jj have "unat (pos (cpgs ! j)) \<le> unat (pos (cpgs ! ?f)) + W" by (simp add: joins_def)
  with lo up c show ?thesis by (simp add: withinReadLen_def)
qed


lemma firstsOf_window:
  assumes "i \<le> j" and "j < length cpgs"
  shows "(\<forall>s\<in>set (firstsOf W cpgs). \<not> (i < s \<and> s \<le> j))
       = (firstsOf W cpgs ! j = firstsOf W cpgs ! i)"
proof
  let ?g = "firstsOf W cpgs"
  assume a: "\<forall>s\<in>set ?g. \<not> (i < s \<and> s \<le> j)"
  from assms have "?g ! j \<in> set ?g" by (simp add: length_firstsOf)
  with a firstsOf_le [OF assms(2), of W] have le: "?g ! j \<le> i" by auto
  from assms have i: "i < length cpgs" by simp
  from firstsOf_mono [OF le i, of W] firstsOf_idem [OF assms(2), of W]
  have "?g ! j \<le> ?g ! i" by simp
  with firstsOf_mono [OF assms, of W] show "?g ! j = ?g ! i" by simp
next
  let ?g = "firstsOf W cpgs"
  assume eq: "?g ! j = ?g ! i"
  show "\<forall>s\<in>set ?g. \<not> (i < s \<and> s \<le> j)"
  proof (intro ballI notI)
    fix s assume "s \<in> set ?g" and b: "i < s \<and> s \<le> j"
    then obtain k where k: "k < length cpgs" "s = ?g ! k"
      by (auto simp: in_set_conv_nth length_firstsOf)
    from firstsOf_idem [OF k(1), of W] k(2) have fx: "?g ! s = s" by simp
    from b have "s \<le> j" by simp
    from firstsOf_mono [OF this assms(2), of W] fx eq have "s \<le> ?g ! i" by simp
    with firstsOf_le [of i cpgs W] assms b show False by simp
  qed
qed

lemma firstsOf_Max:
  assumes "i < length cpgs"
  shows "Max (set (filter (\<lambda>s. s \<le> i) (remdups_adj (firstsOf W cpgs)))) = firstsOf W cpgs ! i"
proof (rule Max_eqI)
  let ?g = "firstsOf W cpgs"
  show "finite (set (filter (\<lambda>s. s \<le> i) (remdups_adj ?g)))" by simp
  show "?g ! i \<in> set (filter (\<lambda>s. s \<le> i) (remdups_adj ?g))"
    using assms firstsOf_le [OF assms, of W] by (simp add: length_firstsOf)
  fix y assume "y \<in> set (filter (\<lambda>s. s \<le> i) (remdups_adj ?g))"
  then have y: "y \<in> set ?g" "y \<le> i" by simp_all
  then obtain k where k: "k < length cpgs" "y = ?g ! k"
    by (auto simp: in_set_conv_nth length_firstsOf)
  from firstsOf_idem [OF k(1), of W] k(2) have "?g ! y = y" by simp
  with firstsOf_mono [OF y(2) assms, of W] show "y \<le> ?g ! i" by simp
qed

lemma groupCpGs_starts:
  assumes "length cpgs \<le> 2 ^ 32"
  shows "map (\<lambda>m. unat (start m)) (groupCpGs W cpgs) = remdups_adj (firstsOf W cpgs)"
proof (cases cpgs)
  case Nil
  then show ?thesis by (simp add: groupCpGs_def firstsOf_def)
next
  case (Cons f rest)
  have lt: "(0 :: nat) < 1" by simp
  have r: "remdups_adj (firstsOf W cpgs) = 0 # metaStarts W f rest 1"
    unfolding firstsOf_def Cons list.case by (rule starts_remdups [OF lt])
  have g: "groupCpGs W cpgs = map (\<lambda>i. \<lparr>start = of_nat i\<rparr>) (remdups_adj (firstsOf W cpgs))"
    unfolding r unfolding groupCpGs_def Cons list.case ..
  have small: "s < 2 ^ 32" if "s \<in> set (firstsOf W cpgs)" for s
  proof -
    from that obtain k where k: "k < length cpgs" "s = firstsOf W cpgs ! k"
      by (auto simp: in_set_conv_nth length_firstsOf)
    with firstsOf_le [OF k(1), of W] assms show ?thesis by simp
  qed
  have "map (\<lambda>m. unat (start m)) (groupCpGs W cpgs)
      = map (\<lambda>s. unat (of_nat s :: 32 word)) (remdups_adj (firstsOf W cpgs))"
    unfolding g by (simp add: comp_def)
  also have "\<dots> = map (\<lambda>s. s) (remdups_adj (firstsOf W cpgs))"
    using small by (intro map_cong refl) (simp add: unat_of_nat)
  finally show ?thesis by simp
qed

lemma sameMetaCpG_firstsOf:
  assumes "length cpgs \<le> 2 ^ 32" and "i \<le> j" and "j < length cpgs"
  shows "sameMetaCpG (groupCpGs W cpgs) i j = (firstsOf W cpgs ! j = firstsOf W cpgs ! i)"
proof -
  have "sameMetaCpG (groupCpGs W cpgs) i j
      = (\<forall>s\<in>set (map (\<lambda>m. unat (start m)) (groupCpGs W cpgs)). \<not> (i < s \<and> s \<le> j))"
    using assms(2) by (simp add: sameMetaCpG_def list_all_iff min_def max_def)
  also have "\<dots> = (\<forall>s\<in>set (firstsOf W cpgs). \<not> (i < s \<and> s \<le> j))"
    by (simp only: groupCpGs_starts [OF assms(1)] remdups_adj_set)
  also have "\<dots> = (firstsOf W cpgs ! j = firstsOf W cpgs ! i)"
    by (rule firstsOf_window [OF assms(2,3)])
  finally show ?thesis .
qed

lemma firstCpGOf_firstsOf:
  assumes "length cpgs \<le> 2 ^ 32" and "i < length cpgs"
  shows "firstCpGOf (groupCpGs W cpgs) i = firstsOf W cpgs ! i"
  unfolding firstCpGOf_def groupCpGs_starts [OF assms(1)] by (rule firstsOf_Max [OF assms(2)])

lemma ex_metaCpGs: "metaCpGs (generateMetaCpGs 100 exCpGRef) = [\<lparr>start = 0\<rparr>, \<lparr>start = 2\<rparr>]"
  by code_simp

text \<open>
  Claim C7, as amended.  \<^verbatim>\<open>generateMetaCpGs\<close> is not in the sources; in the model
  that follows the spec, for a CpG table in position order per chromosome, two CpGs
  \<open>i \<le> j\<close> belong to the same meta-CpG if and only if the later one lies on the
  chromosome of, and at most one read length behind, the first CpG of the meta-CpG of
  the earlier one.  Hence two CpGs that are farther apart than one read length belong to
  different meta-CpGs, as the claim says; two CpGs within one read length of each other
  belong to the same meta-CpG only under that condition.
\<close>

theorem metaCpG_grouping:
  assumes "cpgSorted (cpgTable rf)" and "length (cpgTable rf) \<le> 2 ^ 32"
    and "i \<le> j" and "j < length (cpgTable rf)"
  shows "(sameMetaCpG (metaCpGs (generateMetaCpGs readLen rf)) i j
            = joins readLen
                (cpgTable rf ! firstCpGOf (metaCpGs (generateMetaCpGs readLen rf)) i)
                (cpgTable rf ! j)) \<and>
         (\<not> withinReadLen readLen (cpgTable rf ! i) (cpgTable rf ! j) \<longrightarrow>
            \<not> sameMetaCpG (metaCpGs (generateMetaCpGs readLen rf)) i j)"
proof -
  let ?cpgs = "cpgTable rf"
  have m: "metaCpGs (generateMetaCpGs readLen rf) = groupCpGs readLen ?cpgs"
    by (simp add: generateMetaCpGs_def)
  from assms have i: "i < length ?cpgs" by simp
  have same: "sameMetaCpG (groupCpGs readLen ?cpgs) i j
      = (firstsOf readLen ?cpgs ! j = firstsOf readLen ?cpgs ! i)"
    by (rule sameMetaCpG_firstsOf [OF assms(2,3,4)])
  have first: "firstCpGOf (groupCpGs readLen ?cpgs) i = firstsOf readLen ?cpgs ! i"
    by (rule firstCpGOf_firstsOf [OF assms(2) i])
  have a: "sameMetaCpG (groupCpGs readLen ?cpgs) i j
      = joins readLen (?cpgs ! firstCpGOf (groupCpGs readLen ?cpgs) i) (?cpgs ! j)"
    unfolding same first by (rule firstsOf_same_iff [OF assms(1,3,4)])
  have b: "withinReadLen readLen (?cpgs ! i) (?cpgs ! j)"
    if "sameMetaCpG (groupCpGs readLen ?cpgs) i j"
    using that firstsOf_same_within [OF assms(1,3,4), of readLen] by (simp add: same)
  from a b show ?thesis unfolding m by blast
qed

theorem metaCpG_grouping_witness:
  "cpgSorted (cpgTable exCpGRef) \<and> length (cpgTable exCpGRef) \<le> 2 ^ 32 \<and>
   (0 :: nat) \<le> 2 \<and> 2 < length (cpgTable exCpGRef) \<and>
   \<not> withinReadLen 100 (cpgTable exCpGRef ! 0) (cpgTable exCpGRef ! 2) \<and>
   \<not> sameMetaCpG (metaCpGs (generateMetaCpGs 100 exCpGRef)) 0 2 \<and>
   \<not> joins 100
       (cpgTable exCpGRef ! firstCpGOf (metaCpGs (generateMetaCpGs 100 exCpGRef)) 0)
       (cpgTable exCpGRef ! 2)"
proof -
  have s: "cpgSorted (cpgTable exCpGRef)" by code_simp
  have l: "length (cpgTable exCpGRef) \<le> 2 ^ 32" "(0 :: nat) \<le> 2" "2 < length (cpgTable exCpGRef)"
    by (simp_all add: exCpGRef_def exCpGs_def)
  have w: "\<not> withinReadLen 100 (cpgTable exCpGRef ! 0) (cpgTable exCpGRef ! 2)"
    by code_simp
  note main = metaCpG_grouping [OF s l, of 100]
  from main w have a: "\<not> sameMetaCpG (metaCpGs (generateMetaCpGs 100 exCpGRef)) 0 2"
    by blast
  with main have b: "\<not> joins 100
       (cpgTable exCpGRef ! firstCpGOf (metaCpGs (generateMetaCpGs 100 exCpGRef)) 0)
       (cpgTable exCpGRef ! 2)"
    by blast
  from s l w a b show ?thesis by blast
qed

text \<open>The first half of the claim as stated fails: the CpGs at the positions 60 and 120
  are within one read length (100) of each other, but the meta-CpG that opens at
  position 0 ends before 120.\<close>

theorem metaCpG_within_but_apart:
  "withinReadLen 100 (cpgTable exCpGRef ! 1) (cpgTable exCpGRef ! 2) \<and>
   \<not> sameMetaCpG (metaCpGs (generateMetaCpGs 100 exCpGRef)) 1 2"
  by code_simp

text \<open>No grouping at all meets the claim as stated on this table: 0 and 60 are within
  a read length, 60 and 120 are, 0 and 120 are not, and belonging to the same group is
  transitive.\<close>

lemma no_grouping_meets_the_claim:
  "\<not> (\<forall>i<3. \<forall>j<3. withinReadLen 100 (exCpGs ! i) (exCpGs ! j) = (grp i = (grp j :: nat)))"
proof
  assume a: "\<forall>i<3. \<forall>j<3. withinReadLen 100 (exCpGs ! i) (exCpGs ! j) = (grp i = grp j)"
  have w: "withinReadLen 100 (exCpGs ! 0) (exCpGs ! 1)"
    "withinReadLen 100 (exCpGs ! 1) (exCpGs ! 2)"
    "\<not> withinReadLen 100 (exCpGs ! 0) (exCpGs ! 2)"
    by (simp_all add: withinReadLen_def exCpGs_def)
  from a have "withinReadLen 100 (exCpGs ! 0) (exCpGs ! 1) = (grp 0 = grp 1)"
    "withinReadLen 100 (exCpGs ! 1) (exCpGs ! 2) = (grp 1 = grp 2)"
    "withinReadLen 100 (exCpGs ! 0) (exCpGs ! 2) = (grp 0 = grp 2)"
    by simp_all
  with w show False by simp
qed

subsection \<open>No access out of bounds on well-formed seed tables\<close>

text \<open>The statements above are about runs that stay within bounds.  Such runs are the
  rule: \<^verbatim>\<open>filterHeuSeeds\<close> stays within bounds when the tables are aligned and
  every index is below \<^verbatim>\<open>metaCpGs.size()\<close>; \<^verbatim>\<open>bitMatching\<close> and
  \<^verbatim>\<open>bitMatchingRev\<close> do when the read has at least \<open>KMERLEN\<close> letters, there is
  a row for every k-mer they visit and every seed resolves to a reference k-mer.\<close>

lemma countRow_returns:
  "\<forall>k\<in>set ks. unat (getMetaCpG k) < length tc \<Longrightarrow> \<exists>tc'. countRow ks lastId tc = Inr tc'"
proof (induction ks arbitrary: lastId tc)
  case Nil
  show ?case by simp
next
  case (Cons k ks)
  from Cons.prems have k: "unat (getMetaCpG k) < length tc"
    and rest: "\<forall>k\<in>set ks. unat (getMetaCpG k) < length tc" by simp_all
  from rest have rest': "\<forall>k'\<in>set ks. unat (getMetaCpG k')
      < length (tc[unat (getMetaCpG k) := tc ! unat (getMetaCpG k) + 1])" by simp
  from Cons.IH [OF rest, of lastId] Cons.IH [OF rest', of "getMetaCpG k"] k show ?case
    by (simp add: Let_def)
qed

lemma countAll_returns:
  "\<forall>row\<in>set sK. \<forall>k\<in>set row. unat (getMetaCpG k) < length tc \<Longrightarrow>
     \<exists>tc'. countAll sK tc = Inr tc'"
proof (induction sK arbitrary: tc)
  case Nil
  show ?case by simp
next
  case (Cons row sK)
  from Cons.prems have "\<forall>k\<in>set row. unat (getMetaCpG k) < length tc" by simp
  from countRow_returns [OF this, of "- 1"] obtain tc1 where r: "countRow row (- 1) tc = Inr tc1"
    by blast
  from Cons.prems length_countRow [OF r]
  have "\<forall>row\<in>set sK. \<forall>k\<in>set row. unat (getMetaCpG k) < length tc1" by simp
  from Cons.IH [OF this] r show ?case by simp
qed

lemma filterRow_returns:
  "\<forall>k\<in>set ks. unat (getMetaCpG k) < length tc \<Longrightarrow> length ks \<le> length ss \<Longrightarrow>
     \<exists>fk fs. filterRow tc cutoff ks ss = Inr (fk, fs)"
proof (induction ks arbitrary: ss)
  case Nil
  show ?case by simp
next
  case (Cons k ks)
  from Cons.prems obtain s ss' where ss: "ss = s # ss'" and len: "length ks \<le> length ss'"
    by (cases ss) auto
  from Cons.prems have rest: "\<forall>k\<in>set ks. unat (getMetaCpG k) < length tc" by simp
  from Cons.IH [OF rest len] obtain fk fs where "filterRow tc cutoff ks ss' = Inr (fk, fs)"
    by blast
  with Cons.prems(1) show ?case by (simp add: ss)
qed

lemma filterAll_returns:
  "\<forall>row\<in>set sK. \<forall>k\<in>set row. unat (getMetaCpG k) < length tc \<Longrightarrow> alignedRows sK sS \<Longrightarrow>
     \<exists>fK fS. filterAll tc cutoff sK sS = Inr (fK, fS)"
proof (induction sK arbitrary: sS)
  case Nil
  show ?case by simp
next
  case (Cons row sK)
  from Cons.prems(2) obtain srow srows where sS: "sS = srow # srows"
    and len: "length row = length srow" and al: "alignedRows sK srows"
    by (cases sS) (auto simp: alignedRows_def)
  from Cons.prems(1) have row: "\<forall>k\<in>set row. unat (getMetaCpG k) < length tc"
    and rest: "\<forall>row\<in>set sK. \<forall>k\<in>set row. unat (getMetaCpG k) < length tc" by simp_all
  from filterRow_returns [OF row, of srow cutoff] len obtain fk fs where
    "filterRow tc cutoff row srow = Inr (fk, fs)" by auto
  moreover from Cons.IH [OF rest al] obtain fK fS where
    "filterAll tc cutoff sK srows = Inr (fK, fS)" by blast
  ultimately show ?case by (simp add: sS)
qed

lemma filterHeuSeeds_returns:
  assumes "tid < length (counts q)" and "alignedRows sK sS"
    and "\<forall>row\<in>set sK. \<forall>k\<in>set row. unat (getMetaCpG k) < length (metaCpGs (ref q))"
  shows "\<exists>q' fK fS. filterHeuSeeds c tid q sK sS n = Inr (q', fK, fS)"
proof -
  from assms(3) have "\<forall>row\<in>set sK. \<forall>k\<in>set row. unat (getMetaCpG k)
      < length (replicate (length (metaCpGs (ref q))) (0 :: 32 word))" by simp
  from countAll_returns [OF this] obtain tc where
    cnt: "countAll sK (replicate (length (metaCpGs (ref q))) 0) = Inr tc" by blast
  from length_countAll [OF cnt] assms(3)
  have "\<forall>row\<in>set sK. \<forall>k\<in>set row. unat (getMetaCpG k) < length tc" by simp
  from filterAll_returns [OF this assms(2), of "countCut c n"] obtain fK fS where
    "filterAll tc (countCut c n) sK sS = Inr (fK, fS)" by blast
  with cnt assms(1) show ?thesis by (simp add: filterHeuSeeds_def)
qed

lemma matchRow_returns:
  "length ks \<le> length ss \<Longrightarrow>
   \<forall>seed\<in>set (zip ks ss). \<exists>x. fetchRefKmerBit rf (fst seed) (snd seed) = Inr x \<Longrightarrow>
   \<exists>mk ms. matchRow b rf bits ks ss = Inr (mk, ms)"
proof (induction ks arbitrary: ss)
  case Nil
  show ?case by simp
next
  case (Cons k ks)
  from Cons.prems(1) obtain s ss' where ss: "ss = s # ss'" and len: "length ks \<le> length ss'"
    by (cases ss) auto
  from Cons.prems(2) obtain x where x: "fetchRefKmerBit rf k s = Inr x"
    by (auto simp: ss)
  from Cons.prems(2) have "\<forall>seed\<in>set (zip ks ss').
      \<exists>x. fetchRefKmerBit rf (fst seed) (snd seed) = Inr x" by (simp add: ss)
  from Cons.IH [OF len this] obtain mk ms where "matchRow b rf bits ks ss' = Inr (mk, ms)"
    by blast
  with x show ?case by (simp add: ss)
qed

lemma seedsResolve_row:
  assumes "seedsResolve rf sK sS" and "alignedRows sK sS" and "i < length sK"
  shows "length (sK ! i) \<le> length (sS ! i)"
    and "\<forall>seed\<in>set (zip (sK ! i) (sS ! i)). \<exists>x. fetchRefKmerBit rf (fst seed) (snd seed) = Inr x"
proof -
  from assms(2) have len: "length sK = length sS"
    and rows: "\<forall>i<length sK. length (sK ! i) = length (sS ! i)"
    by (simp_all add: alignedRows_def list_all2_conv_all_nth)
  from rows assms(3) show "length (sK ! i) \<le> length (sS ! i)" by simp
  from assms(3) len have "(sK ! i, sS ! i) \<in> set (zip sK sS)"
    by (auto simp: in_set_zip)
  with assms(1) have r: "\<forall>seed\<in>set (zip (sK ! i) (sS ! i)).
      fetchRefKmerBit rf (fst seed) (snd seed) \<noteq> Inl OutOfBounds"
    unfolding seedsResolve_def list_all_iff by fastforce
  show "\<forall>seed\<in>set (zip (sK ! i) (sS ! i)). \<exists>x. fetchRefKmerBit rf (fst seed) (snd seed) = Inr x"
  proof
    fix seed assume "seed \<in> set (zip (sK ! i) (sS ! i))"
    with r have "fetchRefKmerBit rf (fst seed) (snd seed) \<noteq> Inl OutOfBounds" by blast
    then show "\<exists>x. fetchRefKmerBit rf (fst seed) (snd seed) = Inr x"
      by (cases "fetchRefKmerBit rf (fst seed) (snd seed)") (auto intro: error.exhaust)
  qed
qed


lemma fwdLoop_returns:
  assumes K: "0 < KMERLEN c" and res: "seedsResolve rf sK sS" and al: "alignedRows sK sS"
    and n: "n \<le> length sK" "n + KMERLEN c - 1 \<le> length sq"
  shows "\<exists>rk rs. fwdLoop c b rf sq sK sS n offset bits = Inr (rk, rs)"
proof (induction "n - offset" arbitrary: offset bits)
  case 0
  then show ?case by (simp add: fwdLoop_done)
next
  case (Suc m)
  then have lt: "offset < n" and m: "m = n - (offset + 1)" by simp_all
  from al have len: "length sK = length sS"
    by (simp add: alignedRows_def list_all2_lengthD)
  from lt n len K have inb: "offset < length sK" "offset < length sS"
    "offset + KMERLEN c - 1 < length sq" by simp_all
  define bits' where "bits' = shiftIn c bits (getBitRepr b (sq ! (offset + KMERLEN c - 1)))"
  from matchRow_returns [OF seedsResolve_row [OF res al inb(1)], of b bits'] obtain mk ms where
    row: "matchRow b rf bits' (sK ! offset) (sS ! offset) = Inr (mk, ms)" by blast
  from Suc.hyps(1) [OF m, of bits'] obtain rk rs where
    rest: "fwdLoop c b rf sq sK sS n (offset + 1) bits' = Inr (rk, rs)" by blast
  from lt inb row rest show ?case
    by (subst fwdLoop.simps) (simp add: Let_def bits'_def)
qed

lemma bitMatching_returns:
  assumes K: "0 < KMERLEN c" and L: "KMERLEN c \<le> length (seq r)"
    and rows: "length (seq r) + 1 - KMERLEN c \<le> length sK"
    and res: "seedsResolve (ref q) sK sS" and al: "alignedRows sK sS"
  shows "\<exists>mK mS. bitMatching c b q r sK sS = Inr (q, mK, mS)"
proof -
  from L have i: "fwdInit b (seq r) (KMERLEN c - 1) 0 0
      = Inr (packKmer (getBitRepr b) (take (KMERLEN c - 1) (seq r)))"
    by (intro fwdInit_packKmer) simp
  from K L have n: "length (seq r) + 1 - KMERLEN c + KMERLEN c - 1 \<le> length (seq r)" by simp
  from fwdLoop_returns [OF K res al rows n] obtain rk rs where
    "fwdLoop c b (ref q) (seq r) sK sS (length (seq r) + 1 - KMERLEN c) 0
       (packKmer (getBitRepr b) (take (KMERLEN c - 1) (seq r))) = Inr (rk, rs)" by blast
  then show ?thesis unfolding bitMatching_def i by simp
qed

lemma revLoop_returns:
  assumes res: "seedsResolve rf sK sS" and al: "alignedRows sK sS"
  shows "offset \<le> length sq \<Longrightarrow> kmerInd + offset \<le> length sK \<Longrightarrow>
    \<exists>rk rs. revLoop c b rf sq sK sS offset kmerInd bits = Inr (rk, rs)"
proof (induction offset arbitrary: kmerInd bits)
  case 0
  then show ?case by (simp add: revLoop_done)
next
  case (Suc m)
  from al have len: "length sK = length sS"
    by (simp add: alignedRows_def list_all2_lengthD)
  from Suc.prems len have inb: "kmerInd < length sK" "kmerInd < length sS"
    "Suc m - 1 < length sq" by simp_all
  define bits' where "bits' = shiftIn c bits (getBitReprRev b (sq ! (Suc m - 1)))"
  from matchRow_returns [OF seedsResolve_row [OF res al inb(1)], of b bits'] obtain mk ms where
    row: "matchRow b rf bits' (sK ! kmerInd) (sS ! kmerInd) = Inr (mk, ms)" by blast
  from Suc.prems have "m \<le> length sq" "kmerInd + 1 + m \<le> length sK" by simp_all
  from Suc.IH [OF this, of bits'] obtain rk rs where
    rest: "revLoop c b rf sq sK sS m (kmerInd + 1) bits' = Inr (rk, rs)" by blast
  from inb row rest show ?case
    by (subst revLoop.simps) (simp add: Let_def bits'_def)
qed

lemma bitMatchingRev_returns:
  assumes K: "0 < KMERLEN c" and L: "KMERLEN c \<le> length (seq r)" "length (seq r) < 2 ^ 32"
    and rows: "length (seq r) - KMERLEN c \<le> length sK"
    and res: "seedsResolve (ref q) sK sS" and al: "alignedRows sK sS"
  shows "\<exists>mK mS. bitMatchingRev c b q r sK sS = Inr (q, mK, mS)"
proof -
  define n where "n = length (seq r) - KMERLEN c"
  from L have rs: "length (seq r) mod 2 ^ 32 = length (seq r)" by simp
  from K L have s: "u32sub (length (seq r)) (KMERLEN c) = n"
    "u32sub (length (seq r)) 1 = length (seq r) - 1"
    by (simp_all add: u32sub_simple n_def)
  from K L have "length (seq r) - 1 < length (seq r)" by simp
  from revInit_Inr [OF this, of b n 0] obtain bits where
    i: "revInit b (seq r) n (length (seq r) - 1) 0 = Inr bits" by blast
  have "n \<le> length (seq r)" "0 + n \<le> length sK" using rows by (simp_all add: n_def)
  from revLoop_returns [OF res al this, of c b bits] obtain rk rs where
    "revLoop c b (ref q) (seq r) sK sS n 0 bits = Inr (rk, rs)" by blast
  then show ?thesis unfolding bitMatchingRev_def Let_def rs s i by simp
qed

subsection \<open>C10: the tallies start from zero\<close>

lemma remdups_adj_hd_tl: "remdups_adj (x # xs) = x # tl (remdups_adj (x # xs))"
  by (cases xs) auto

lemma count_remdups_adj_Cons:
  "count_list (remdups_adj (x # xs)) m
     = (if m = x then 1 else 0) + count_list (tl (remdups_adj (x # xs))) m"
proof -
  define ys where "ys = tl (remdups_adj (x # xs))"
  have ys: "remdups_adj (x # xs) = x # ys"
    unfolding ys_def by (rule remdups_adj_hd_tl)
  show ?thesis unfolding ys_def [symmetric] ys by simp
qed

lemma countRow_runs:
  "countRow ks lastId tc = Inr tc' \<Longrightarrow> unat m < length tc \<Longrightarrow>
   tc' ! unat m
     = tc ! unat m + of_nat (count_list (tl (remdups_adj (lastId # map getMetaCpG ks))) m)"
proof (induction ks arbitrary: lastId tc)
  case Nil
  then show ?case by simp
next
  case (Cons k ks)
  define m0 where "m0 = getMetaCpG k"
  show ?case
  proof (cases "m0 = lastId")
    case True
    with Cons.prems(1) have r: "countRow ks lastId tc = Inr tc'"
      by (simp add: m0_def)
    from Cons.IH [OF r Cons.prems(2)] True show ?thesis
      by (simp add: m0_def)
  next
    case False
    with Cons.prems(1) have inb: "unat m0 < length tc"
      and r: "countRow ks m0 (tc[unat m0 := tc ! unat m0 + 1]) = Inr tc'"
      by (simp_all add: m0_def Let_def split: if_splits)
    from Cons.prems(2) have len: "unat m < length (tc[unat m0 := tc ! unat m0 + 1])" by simp
    have upd: "(tc[unat m0 := tc ! unat m0 + 1]) ! unat m = tc ! unat m + (if m = m0 then 1 else 0)"
      using Cons.prems(2) by (auto simp: nth_list_update word_unat_eq_iff)
    from False have t: "tl (remdups_adj (lastId # map getMetaCpG (k # ks)))
        = remdups_adj (m0 # map getMetaCpG ks)"
      by (simp add: m0_def)
    have c: "count_list (remdups_adj (m0 # map getMetaCpG ks)) m
        = (if m = m0 then 1 else 0) + count_list (tl (remdups_adj (m0 # map getMetaCpG ks))) m"
      by (rule count_remdups_adj_Cons)
    have "tc' ! unat m = tc ! unat m + (if m = m0 then 1 else 0)
        + of_nat (count_list (tl (remdups_adj (m0 # map getMetaCpG ks))) m)"
      using Cons.IH [OF r len] upd by simp
    also have "\<dots> = tc ! unat m + of_nat (count_list (remdups_adj (m0 # map getMetaCpG ks)) m)"
      unfolding c by simp
    finally show ?thesis unfolding t .
  qed
qed

lemma countAll_runs:
  "countAll sK tc = Inr tc' \<Longrightarrow> unat m < length tc \<Longrightarrow>
   tc' ! unat m = tc ! unat m + zeroTally sK m"
proof (induction sK arbitrary: tc)
  case Nil
  then show ?case by (simp add: zeroTally_def)
next
  case (Cons row sK)
  from Cons.prems(1) obtain tc1 where r: "countRow row (- 1) tc = Inr tc1"
    and a: "countAll sK tc1 = Inr tc'"
    by (auto split: sum.splits)
  from length_countRow [OF r] Cons.prems(2) have len: "unat m < length tc1" by simp
  from countRow_runs [OF r Cons.prems(2)] Cons.IH [OF a len] show ?case
    by (simp add: zeroTally_def runsOf_def)
qed

text \<open>
  Claim C10.  \<^verbatim>\<open>filterHeuSeeds\<close> overwrites the counter array of its thread with
  zeroes before it counts, so nothing of a run depends on what the array held, nor on
  which worker thread runs the call.  Take two runs on the same seed tables, read length
  and index, whatever the two object states hold in \<open>counts\<close> and whichever threads
  \<open>tid1\<close> and \<open>tid2\<close> are.  Both fail or both return, with the same pruned tables
  and the same counter array of the running thread.  A run that returns has changed
  nothing of the object but that array, which has one entry per meta-CpG of the index
  and holds in every entry the count taken from zero, \<open>zeroTally\<close>.
\<close>

theorem filterHeuSeeds_ignores_old_counts:
  assumes "tid1 < length (counts q1)" and "tid2 < length (counts q2)"
    and "ref q1 = ref q2"
  shows "map_sum id (\<lambda>(q', fK, fS). (counts q' ! tid1, fK, fS)) (filterHeuSeeds c tid1 q1 sK sS n)
       = map_sum id (\<lambda>(q', fK, fS). (counts q' ! tid2, fK, fS)) (filterHeuSeeds c tid2 q2 sK sS n)
     \<and> (\<forall>q' fK fS. filterHeuSeeds c tid1 q1 sK sS n = Inr (q', fK, fS) \<longrightarrow>
          q' = q1\<lparr>counts := (counts q1)[tid1 := counts q' ! tid1]\<rparr> \<and>
          length (counts q' ! tid1) = length (metaCpGs (ref q1)) \<and>
          (\<forall>m. unat m < length (metaCpGs (ref q1)) \<longrightarrow>
             counts q' ! tid1 ! unat m = zeroTally sK m))"
proof (intro conjI allI impI)
  show "map_sum id (\<lambda>(q', fK, fS). (counts q' ! tid1, fK, fS)) (filterHeuSeeds c tid1 q1 sK sS n)
       = map_sum id (\<lambda>(q', fK, fS). (counts q' ! tid2, fK, fS)) (filterHeuSeeds c tid2 q2 sK sS n)"
    using assms by (simp add: filterHeuSeeds_def split: sum.splits)
next
  fix q' fK fS
  assume run: "filterHeuSeeds c tid1 q1 sK sS n = Inr (q', fK, fS)"
  then obtain tc where
    cnt: "countAll sK (replicate (length (metaCpGs (ref q1))) 0) = Inr tc"
    and q': "q' = q1\<lparr>counts := (counts q1)[tid1 := tc]\<rparr>"
    by (auto simp: filterHeuSeeds_def split: if_splits sum.splits)
  from assms(1) have tc: "counts q' ! tid1 = tc" by (simp add: q')
  show "q' = q1\<lparr>counts := (counts q1)[tid1 := counts q' ! tid1]\<rparr>"
    unfolding tc by (rule q')
  show "length (counts q' ! tid1) = length (metaCpGs (ref q1))"
    unfolding tc using length_countAll [OF cnt] by simp
  fix m :: "64 word"
  assume m: "unat m < length (metaCpGs (ref q1))"
  then have "unat m < length (replicate (length (metaCpGs (ref q1))) (0 :: 32 word))" by simp
  from countAll_runs [OF cnt this] m show "counts q' ! tid1 ! unat m = zeroTally sK m"
    unfolding tc by simp
qed

text \<open>Thread 0 starts from zeroes and thread 1 from the counts \<open>7, 7\<close>; the bound is
  2.  Both leave the tallies \<open>2, 1\<close> and drop the seed of meta-CpG 1, which counts
  carried over from the earlier read would have kept.\<close>

theorem filterHeuSeeds_ignores_old_counts_witness:
  "0 < length (counts exStaleQueue) \<and> 1 < length (counts exStaleQueue) \<and>
   counts exStaleQueue ! 0 = [0, 0] \<and> counts exStaleQueue ! 1 = [7, 7] \<and>
   countCut exConst 5 = 2 \<and>
   filterHeuSeeds exConst 0 exStaleQueue exTallySeedsK exTallySeedsS 5
     = Inr (exStaleQueue\<lparr>counts := [[2, 1], [7, 7]]\<rparr>,
            [[seedIn 0 0], [seedIn 0 1], [], []], [[True], [True], [], []]) \<and>
   map_sum id (\<lambda>(q', fK, fS). (counts q' ! 1, fK, fS))
       (filterHeuSeeds exConst 1 exStaleQueue exTallySeedsK exTallySeedsS 5)
     = Inr ([2, 1], [[seedIn 0 0], [seedIn 0 1], [], []], [[True], [True], [], []]) \<and>
   unat (1 :: 64 word) < length (metaCpGs (ref exStaleQueue)) \<and>
   zeroTally exTallySeedsK 1 = 1 \<and>
   counts (exStaleQueue\<lparr>counts := [[2, 1], [7, 7]]\<rparr>) ! 0 ! unat (1 :: 64 word)
     = zeroTally exTallySeedsK 1"
proof -
  have l: "0 < length (counts exStaleQueue)" "1 < length (counts exStaleQueue)"
    by (simp_all add: exStaleQueue_def)
  have d: "counts exStaleQueue ! 0 = [0, 0]" "counts exStaleQueue ! 1 = [7, 7]"
    by (simp_all add: exStaleQueue_def)
  have cut: "countCut exConst 5 = 2" by code_simp
  have run: "filterHeuSeeds exConst 0 exStaleQueue exTallySeedsK exTallySeedsS 5
     = Inr (exStaleQueue\<lparr>counts := [[2, 1], [7, 7]]\<rparr>,
            [[seedIn 0 0], [seedIn 0 1], [], []], [[True], [True], [], []])"
    by code_simp
  have m: "unat (1 :: 64 word) < length (metaCpGs (ref exStaleQueue))"
    by (simp add: exStaleQueue_def exQueue_def exRef_def)
  have z: "zeroTally exTallySeedsK 1 = 1" by code_simp
  note main = filterHeuSeeds_ignores_old_counts [OF l refl,
      where c = exConst and sK = exTallySeedsK and sS = exTallySeedsS and n = 5]
  from main have "map_sum id (\<lambda>(q', fK, fS). (counts q' ! 0, fK, fS))
       (filterHeuSeeds exConst 0 exStaleQueue exTallySeedsK exTallySeedsS 5)
     = map_sum id (\<lambda>(q', fK, fS). (counts q' ! 1, fK, fS))
       (filterHeuSeeds exConst 1 exStaleQueue exTallySeedsK exTallySeedsS 5)"
    by (rule conjunct1)
  then have a: "map_sum id (\<lambda>(q', fK, fS). (counts q' ! 1, fK, fS))
       (filterHeuSeeds exConst 1 exStaleQueue exTallySeedsK exTallySeedsS 5)
     = Inr ([2, 1], [[seedIn 0 0], [seedIn 0 1], [], []], [[True], [True], [], []])"
    unfolding run by simp
  from main run m have b: "counts (exStaleQueue\<lparr>counts := [[2, 1], [7, 7]]\<rparr>) ! 0
       ! unat (1 :: 64 word) = zeroTally exTallySeedsK 1"
    by blast
  from l d cut run a m z b show ?thesis by blast
qed


end
